theory Spec2Isabelle
  imports Main "HOL-Library.Word"
begin

section \<open>Data model\<close>

text \<open>
  The Go struct \<^verbatim>\<open>CError\<close> has the fields \<^verbatim>\<open>wrapped error\<close>,
  \<^verbatim>\<open>details []string\<close>, \<^verbatim>\<open>userdetails []string\<close>, \<^verbatim>\<open>msg string\<close>,
  \<^verbatim>\<open>id int32\<close> and \<^verbatim>\<open>code uint16\<close>.

  \<^item> An \<^verbatim>\<open>error\<close> interface value is \<open>None\<close> (nil) or \<open>Some\<close> of a link: a
    \<^verbatim>\<open>*CError\<close> (\<open>PtrCError\<close>) or a foreign error (\<open>Foreign\<close>), of which the code
    uses its \<^verbatim>\<open>Error()\<close> text and, when the dynamic type has the method, the result of
    \<^verbatim>\<open>Unwrap() error\<close>. A \<^verbatim>\<open>*CError\<close> is modelled by the struct it points to; nil
    pointers of that type are outside the model, but for the targets of matching and
    the receivers of derivation, which the section on matching adds. Values of the
    datatype are finite trees, so every cause chain is finite and acyclic.
  \<^item> A \<^verbatim>\<open>[]string\<close> field is \<open>None\<close> (the nil slice) or \<open>Some s\<close>; the type parameter
    \<open>'s\<close> is the representation of a non-nil slice: its element sequence
    (\<open>string list\<close>) for the functions that only read elements, a slice header into
    an explicit store (\<open>slice\<close>, below) for the two functions that allocate and write.
  \<^item> \<^verbatim>\<open>int32\<close> and \<^verbatim>\<open>uint16\<close> are \<open>32 word\<close> and \<open>16 word\<close>; the field
    \<^verbatim>\<open>id\<close> is called \<open>id'\<close> here.
\<close>

datatype 's CError =
  CError (wrapped: "'s error option") (details: "'s option") (userdetails: "'s option")
         (msg: string) (id': "32 word") (code: "16 word")
and 's error =
  PtrCError "'s CError"
| Foreign (rendered: string) (unwrap: "'s unwrapper")
and 's unwrapper =
  NoUnwrap
| HasUnwrap "'s error option"

text \<open>The element sequence of a \<^verbatim>\<open>[]string\<close> held as a list; its \<^verbatim>\<open>len\<close> is the length.\<close>

fun seq :: "string list option \<Rightarrow> string list" where
  "seq None = []"
| "seq (Some xs) = xs"

section \<open>Construction\<close>

text \<open>
  \<^verbatim>\<open>errorCounter\<close> is the only package state. \<^verbatim>\<open>atomic.AddInt32(&errorCounter, 1)\<close>
  adds one with \<^verbatim>\<open>int32\<close> wrap-around and returns the new value; the constructors take
  the counter and return it updated.
\<close>

definition New :: "16 word \<Rightarrow> string \<Rightarrow> 32 word \<Rightarrow> 's CError \<times> 32 word" where
  "New code0 msg0 errorCounter =
     (let id0 = errorCounter + 1
      in (CError None None None msg0 id0 code0, id0))"

definition Wrap :: "'s error option \<Rightarrow> 16 word \<Rightarrow> string \<Rightarrow> 32 word \<Rightarrow> 's CError \<times> 32 word" where
  "Wrap err code0 msg0 errorCounter =
     (let id0 = errorCounter + 1
      in (CError err None None msg0 id0 code0, id0))"

text \<open>
  A run of the process makes its construction calls one after the other on the counter
  (the atomic addition orders concurrent calls); \<open>constructions\<close> lists the values they
  return, in the order of the calls.
\<close>

datatype 's construction =
  CallNew "16 word" string
| CallWrap "'s error option" "16 word" string

fun construct :: "'s construction \<Rightarrow> 32 word \<Rightarrow> 's CError \<times> 32 word" where
  "construct (CallNew code0 msg0) errorCounter = New code0 msg0 errorCounter"
| "construct (CallWrap err code0 msg0) errorCounter = Wrap err code0 msg0 errorCounter"

fun constructions :: "'s construction list \<Rightarrow> 32 word \<Rightarrow> 's CError list" where
  "constructions [] errorCounter = []"
| "constructions (k # ks) errorCounter =
     fst (construct k errorCounter) # constructions ks (snd (construct k errorCounter))"

section \<open>Matching\<close>

definition Is :: "'s CError \<Rightarrow> 's error option \<Rightarrow> bool" where
  "Is e target = (case target of Some (PtrCError cerr) \<Rightarrow> id' e = id' cerr | _ \<Rightarrow> False)"

text \<open>
  The argument of \<^verbatim>\<open>As\<close> is an \<^verbatim>\<open>interface{}\<close>: either a \<^verbatim>\<open>**CError\<close>, a holder
  whose content the call overwrites, or anything else. The result is the returned flag and
  the argument after the call.
\<close>

datatype 's as_target = Holder "'s CError option" | OtherTarget

definition As :: "'s CError \<Rightarrow> 's as_target \<Rightarrow> bool \<times> 's as_target" where
  "As e target = (case target of Holder _ \<Rightarrow> (True, Holder (Some e)) | OtherTarget \<Rightarrow> (False, OtherTarget))"

text \<open>
  Nil pointers as targets. The type assertion of \<^verbatim>\<open>Is\<close> also succeeds on an interface
  value that holds a nil \<^verbatim>\<open>*CError\<close>, and reading its \<^verbatim>\<open>id\<close> then panics; the one of
  \<^verbatim>\<open>As\<close> also succeeds on a nil \<^verbatim>\<open>**CError\<close>, and the assignment through it
  panics. \<open>Is_target\<close> and \<open>As_target\<close> are the two methods on every target, the nil
  pointer included; the receiver is not nil.
\<close>

datatype Panic = NilDereference

datatype 's target = NilCError | Target "'s error option"

definition Is_target :: "'s CError \<Rightarrow> 's target \<Rightarrow> Panic + bool" where
  "Is_target e target =
     (case target of NilCError \<Rightarrow> Inl NilDereference | Target t \<Rightarrow> Inr (Is e t))"

datatype 's as_argument = NilHolder | AsTarget "'s as_target"

definition As_target :: "'s CError \<Rightarrow> 's as_argument \<Rightarrow> Panic + bool \<times> 's as_target" where
  "As_target e target =
     (case target of NilHolder \<Rightarrow> Inl NilDereference | AsTarget t \<Rightarrow> Inr (As e t))"

text \<open>
  A nil pointer as receiver. Each of the five derivations begins with the copy
  \<^verbatim>\<open>newErr := *e\<close>, which panics on a nil receiver. \<open>through p f\<close> is the call of such
  a method, \<open>f\<close> on the struct, through the pointer \<open>p\<close>.
\<close>

definition through :: "'a option \<Rightarrow> ('a \<Rightarrow> 'b) \<Rightarrow> Panic + 'b" where
  "through p f = (case p of None \<Rightarrow> Inl NilDereference | Some e \<Rightarrow> Inr (f e))"

section \<open>Derivation without allocation\<close>

definition WithCode :: "'s CError \<Rightarrow> 16 word \<Rightarrow> 's CError" where
  "WithCode e code0 = CError (wrapped e) (details e) (userdetails e) (msg e) (id' e) code0"

definition WithMessage :: "'s CError \<Rightarrow> string \<Rightarrow> 's CError" where
  "WithMessage e msg0 = CError (wrapped e) (details e) (userdetails e) msg0 (id' e) (code e)"

definition WithWrap :: "'s CError \<Rightarrow> 's error option \<Rightarrow> 's CError" where
  "WithWrap e err = CError err (details e) (userdetails e) (msg e) (id' e) (code e)"

section \<open>Derivation with allocation: slices in a store\<close>

text \<open>
  A non-nil slice is a header: the address of its backing array, its length and its
  capacity (all slices here start at the first element of their array). The store maps
  the addresses allocated so far to the arrays; \<open>next_free\<close> is the first address never
  allocated. Every \<^verbatim>\<open>string\<close> of a new array is empty.
\<close>

datatype slice = Slice (ptr: nat) (slen: nat) (scap: nat)

record store =
  arrays :: "nat \<rightharpoonup> string list"
  next_free :: nat

definition len_of_slice :: "slice option \<Rightarrow> nat" where
  "len_of_slice s = (case s of None \<Rightarrow> 0 | Some h \<Rightarrow> slen h)"

definition array_at :: "store \<Rightarrow> nat \<Rightarrow> string list" where
  "array_at st p = (case arrays st p of None \<Rightarrow> [] | Some a \<Rightarrow> a)"

text \<open>The elements a slice shows in a store.\<close>

definition elems :: "store \<Rightarrow> slice option \<Rightarrow> string list" where
  "elems st s = (case s of None \<Rightarrow> [] | Some h \<Rightarrow> take (slen h) (array_at st (ptr h)))"

text \<open>\<^verbatim>\<open>make([]string, n, c)\<close>: a new array of \<open>c\<close> empty strings, shown up to \<open>n\<close>.\<close>

definition make_slice :: "nat \<Rightarrow> nat \<Rightarrow> store \<Rightarrow> slice \<times> store" where
  "make_slice n c st =
     (Slice (next_free st) n c,
      st\<lparr>arrays := (arrays st)(next_free st \<mapsto> replicate c []), next_free := Suc (next_free st)\<rparr>)"

text \<open>\<^verbatim>\<open>copy(dst, src)\<close>: the first \<open>min (len dst) (len src)\<close> elements of \<open>src\<close> overwrite those of \<open>dst\<close>.\<close>

definition copy_slice :: "slice \<Rightarrow> slice option \<Rightarrow> store \<Rightarrow> store" where
  "copy_slice dst src st =
     (let n = min (slen dst) (len_of_slice src);
          a = array_at st (ptr dst)
      in st\<lparr>arrays := (arrays st)(ptr dst \<mapsto> take n (elems st src) @ drop n a)\<rparr>)"

text \<open>
  \<^verbatim>\<open>append(s, x)\<close> on a non-nil slice: within the capacity the element is written behind
  the last one, in the same array; beyond it a larger array is allocated and filled (the
  capacity Go chooses then is left to the implementation; the model takes the smallest).
\<close>

definition append_slice :: "slice \<Rightarrow> string \<Rightarrow> store \<Rightarrow> slice \<times> store" where
  "append_slice s x st =
     (if slen s < scap s
      then (Slice (ptr s) (Suc (slen s)) (scap s),
            st\<lparr>arrays := (arrays st)(ptr s \<mapsto> (array_at st (ptr s))[slen s := x])\<rparr>)
      else (Slice (next_free st) (Suc (slen s)) (Suc (slen s)),
            st\<lparr>arrays := (arrays st)(next_free st \<mapsto> elems st (Some s) @ [x]),
               next_free := Suc (next_free st)\<rparr>))"

definition WithDetail :: "slice CError \<Rightarrow> string \<Rightarrow> store \<Rightarrow> slice CError \<times> store" where
  "WithDetail e detail st =
     (let (d0, st1) = make_slice (len_of_slice (details e)) (len_of_slice (details e) + 1) st;
          st2 = copy_slice d0 (details e) st1;
          (d1, st3) = append_slice d0 detail st2
      in (CError (wrapped e) (Some d1) (userdetails e) (msg e) (id' e) (code e), st3))"

definition WithUserDetail :: "slice CError \<Rightarrow> string \<Rightarrow> store \<Rightarrow> slice CError \<times> store" where
  "WithUserDetail e detail st =
     (let (d0, st1) = make_slice (len_of_slice (userdetails e)) (len_of_slice (userdetails e) + 1) st;
          st2 = copy_slice d0 (userdetails e) st1;
          (d1, st3) = append_slice d0 detail st2
      in (CError (wrapped e) (details e) (Some d1) (msg e) (id' e) (code e), st3))"

text \<open>
  A slice is allocated in a store when its array lies below \<open>next_free\<close> and has at least
  the slice's length; two slices share backing storage when both are non-nil and show
  the same array.
\<close>

definition allocated :: "store \<Rightarrow> slice option \<Rightarrow> bool" where
  "allocated st s =
     (case s of None \<Rightarrow> True
      | Some h \<Rightarrow> ptr h < next_free st \<and> slen h \<le> length (array_at st (ptr h)))"

definition shares_storage :: "slice option \<Rightarrow> slice option \<Rightarrow> bool" where
  "shares_storage s t =
     (case (s, t) of (Some h, Some k) \<Rightarrow> ptr h = ptr k | _ \<Rightarrow> False)"

definition empty_store :: store where
  "empty_store = \<lparr>arrays = Map.empty, next_free = 0\<rparr>"

text \<open>
  A value over slice headers, read in a store: each slice replaced by the elements it
  shows. The functions that only read elements are stated on such values.
\<close>

definition view :: "store \<Rightarrow> slice CError \<Rightarrow> string list CError" where
  "view st e = map_CError (\<lambda>h. elems st (Some h)) e"

section \<open>Chain traversal\<close>

definition Unwrap :: "'s CError \<Rightarrow> 's error option" where
  "Unwrap c = wrapped c"

text \<open>
  The loop of \<^verbatim>\<open>UnwrapAll\<close>, with the loop variables \<^verbatim>\<open>current\<close> and \<^verbatim>\<open>wrapped\<close>
  as arguments: every non-nil \<^verbatim>\<open>current\<close> is appended, then the type switch chooses
  the next one. The returned \<^verbatim>\<open>[]error\<close> is nil exactly when it is empty, and is held
  as a list.
\<close>

fun UnwrapAll_loop :: "'s error option \<Rightarrow> 's error list \<Rightarrow> 's error list" where
  "UnwrapAll_loop None acc = acc"
| "UnwrapAll_loop (Some (PtrCError (CError w d u m i c))) acc =
     UnwrapAll_loop w (acc @ [PtrCError (CError w d u m i c)])"
| "UnwrapAll_loop (Some (Foreign t (HasUnwrap r))) acc =
     UnwrapAll_loop r (acc @ [Foreign t (HasUnwrap r)])"
| "UnwrapAll_loop (Some (Foreign t NoUnwrap)) acc =
     UnwrapAll_loop None (acc @ [Foreign t NoUnwrap])"

definition UnwrapAll :: "'s CError \<Rightarrow> 's error list" where
  "UnwrapAll c = (if wrapped c = None then [] else UnwrapAll_loop (wrapped c) [])"

text \<open>
  The cause chain as the specification describes it: the link that follows a
  \<^verbatim>\<open>CError\<close> is its own cause, the link that follows a foreign error is what its
  \<^verbatim>\<open>Unwrap\<close> returns when it has one, and there is none otherwise; the chain lists the
  links from a given one on.
\<close>

fun next_link :: "'s error \<Rightarrow> 's error option" where
  "next_link (PtrCError c) = wrapped c"
| "next_link (Foreign t (HasUnwrap r)) = r"
| "next_link (Foreign t NoUnwrap) = None"

fun chain :: "'s error option \<Rightarrow> 's error list" where
  "chain None = []"
| "chain (Some (PtrCError (CError w d u m i c))) = PtrCError (CError w d u m i c) # chain w"
| "chain (Some (Foreign t (HasUnwrap r))) = Foreign t (HasUnwrap r) # chain r"
| "chain (Some (Foreign t NoUnwrap)) = [Foreign t NoUnwrap]"

section \<open>JSON: the wire values and the library calls\<close>

text \<open>
  \<^verbatim>\<open>MarshalJSON\<close> and \<^verbatim>\<open>UnmarshalJSON\<close> call \<^verbatim>\<open>json.Marshal\<close> and
  \<^verbatim>\<open>json.Unmarshal\<close> of Go's standard library on the local struct \<^verbatim>\<open>errorJSON\<close>.
  The library is modelled as its package documentation describes it and, for the
  nesting limit and for an array decoded into a slice that is there, as its source does
  it (\<^verbatim>\<open>scanner.go\<close>, \<^verbatim>\<open>decode.go\<close>), on JSON values rather than on bytes: a byte sequence is either not valid JSON (\<open>Invalid\<close>) or denotes
  one JSON value (\<open>Valid\<close>), and printing a value followed by parsing is taken to give
  the value back. An object keeps its members in order, with duplicates. A number is
  \<open>JInt n\<close> when its literal is the plain decimal numeral of \<open>n\<close>, and \<open>JOtherNumber\<close>
  with the literal otherwise (fraction, exponent, \<^verbatim>\<open>-0\<close>). A string, also a key, is held
  as the Go string it denotes, with its escapes resolved.
\<close>

datatype json =
  JNull
| JBool bool
| JInt int
| JOtherNumber string
| JString string
| JArray "json list"
| JObject "(string \<times> json) list"

datatype jsontext = Invalid | Valid json

datatype DecodeError = SyntaxError | UnmarshalTypeError

text \<open>
  The scanner of the library refuses an input whose arrays and objects are nested more
  than 10000 deep, as a syntax error. \<open>nesting\<close> is the depth of a value: 0 for a
  scalar, one more than the deepest element or member for an array or an object.
\<close>

definition maximum :: "nat list \<Rightarrow> nat" where
  "maximum ns = foldr max ns 0"

fun nesting :: "json \<Rightarrow> nat" where
  "nesting (JArray xs) = Suc (maximum (map nesting xs))"
| "nesting (JObject kvs) = Suc (maximum (map (\<lambda>kv. nesting (snd kv)) kvs))"
| "nesting v = 0"

record errorJSON =
  Message :: string
  Code :: "16 word"
  Details :: "string list option"

subsection \<open>UTF-8\<close>

text \<open>
  A Go string is any byte sequence. \<^verbatim>\<open>json.Marshal\<close> writes a string coerced to valid
  UTF-8: each byte that does not start a valid encoding is replaced by U+FFFD
  (\<^verbatim>\<open>EF BF BD\<close>). \<open>runeWidth\<close> is the width \<^verbatim>\<open>utf8.DecodeRuneInString\<close> reports
  for a valid encoding at the head of the string, \<open>None\<close> where it reports
  \<^verbatim>\<open>RuneError\<close> of width 1.
\<close>

definition between :: "nat \<Rightarrow> nat \<Rightarrow> char \<Rightarrow> bool" where
  "between lo hi c = (lo \<le> of_char c \<and> (of_char c :: nat) \<le> hi)"

definition second_lo :: "nat \<Rightarrow> nat" where
  "second_lo b = (if b = 0xE0 then 0xA0 else if b = 0xF0 then 0x90 else 0x80)"

definition second_hi :: "nat \<Rightarrow> nat" where
  "second_hi b = (if b = 0xED then 0x9F else if b = 0xF4 then 0x8F else 0xBF)"

fun runeWidth :: "string \<Rightarrow> nat option" where
  "runeWidth [] = None"
| "runeWidth (s0 # rest) =
     (let b = (of_char s0 :: nat) in
      if b < 0x80 then Some 1
      else if b < 0xC2 \<or> 0xF4 < b then None
      else if b < 0xE0 then
        (case rest of
           s1 # _ \<Rightarrow> if between 0x80 0xBF s1 then Some 2 else None
         | _ \<Rightarrow> None)
      else if b < 0xF0 then
        (case rest of
           s1 # s2 # _ \<Rightarrow>
             if between (second_lo b) (second_hi b) s1 \<and> between 0x80 0xBF s2 then Some 3 else None
         | _ \<Rightarrow> None)
      else
        (case rest of
           s1 # s2 # s3 # _ \<Rightarrow>
             if between (second_lo b) (second_hi b) s1 \<and> between 0x80 0xBF s2 \<and> between 0x80 0xBF s3
             then Some 4 else None
         | _ \<Rightarrow> None))"

definition replacement :: string where
  "replacement = [CHR 0xEF, CHR 0xBF, CHR 0xBD]"

function coerceUTF8 :: "string \<Rightarrow> string" where
  "coerceUTF8 [] = []"
| "coerceUTF8 (c # cs) =
     (case runeWidth (c # cs) of
        None \<Rightarrow> replacement @ coerceUTF8 cs
      | Some n \<Rightarrow> c # take (n - 1) cs @ coerceUTF8 (drop (n - 1) cs))"
  by pat_completeness auto
termination
  by (relation "measure length") auto

text \<open>\<^verbatim>\<open>utf8.ValidString\<close>.\<close>

function ValidString :: "string \<Rightarrow> bool" where
  "ValidString [] = True"
| "ValidString (c # cs) =
     (case runeWidth (c # cs) of
        None \<Rightarrow> False
      | Some n \<Rightarrow> ValidString (drop (n - 1) cs))"
  by pat_completeness auto
termination
  by (relation "measure length") auto

subsection \<open>\<^verbatim>\<open>json.Marshal\<close> on \<^verbatim>\<open>errorJSON\<close>\<close>

text \<open>
  The members are written in the order of the struct's fields under the names of their
  tags; \<^verbatim>\<open>omitempty\<close> leaves \<^verbatim>\<open>details\<close> out when the slice has length 0 (nil or
  empty). For this struct the call returns no error.
\<close>

definition json_Marshal :: "errorJSON \<Rightarrow> jsontext" where
  "json_Marshal d =
     Valid (JObject
       ([(''message'', JString (coerceUTF8 (Message d))),
         (''code'', JInt (uint (Code d)))] @
        (if length (seq (Details d)) = 0 then []
         else [(''details'', JArray (map (\<lambda>x. JString (coerceUTF8 x)) (seq (Details d))))])))"

definition MarshalJSON :: "string list CError \<Rightarrow> jsontext" where
  "MarshalJSON e =
     (let data = \<lparr>Message = msg e, Code = code e, Details = userdetails e\<rparr>
      in json_Marshal data)"

subsection \<open>\<^verbatim>\<open>json.Unmarshal\<close> into \<^verbatim>\<open>errorJSON\<close>\<close>

text \<open>
  An object key selects the field whose tag it equals, or else the field whose tag it
  equals after case folding. \<open>foldName\<close> folds a key as far as a comparison with the
  three tags needs: ASCII letters to upper case, and the two runes outside ASCII whose
  simple case folding is an ASCII letter, U+017F (\<^verbatim>\<open>C5 BF\<close>, to S) and U+212A
  (\<^verbatim>\<open>E2 84 AA\<close>, to K); any other byte from 0x80 on is kept and matches no tag.
\<close>

datatype struct_field = FMessage | FCode | FDetails

definition upperASCII :: "char \<Rightarrow> char" where
  "upperASCII c =
     (if of_char (CHR ''a'') \<le> (of_char c :: nat) \<and> (of_char c :: nat) \<le> of_char (CHR ''z'')
      then char_of ((of_char c :: nat) - 32) else c)"

function foldName :: "string \<Rightarrow> string" where
  "foldName [] = []"
| "foldName (c # cs) =
     (if (of_char c :: nat) < 0x80 then upperASCII c # foldName cs
      else if c = CHR 0xC5 \<and> take 1 cs = [CHR 0xBF] then CHR ''S'' # foldName (drop 1 cs)
      else if c = CHR 0xE2 \<and> take 2 cs = [CHR 0x84, CHR 0xAA] then CHR ''K'' # foldName (drop 2 cs)
      else c # foldName cs)"
  by pat_completeness auto
termination
  by (relation "measure length") auto

definition field_of :: "string \<Rightarrow> struct_field option" where
  "field_of key =
     (if key = ''message'' then Some FMessage
      else if key = ''code'' then Some FCode
      else if key = ''details'' then Some FDetails
      else if foldName key = ''MESSAGE'' then Some FMessage
      else if foldName key = ''CODE'' then Some FCode
      else if foldName key = ''DETAILS'' then Some FDetails
      else None)"

text \<open>
  An array is decoded into the slice that is there: element \<open>i\<close> of the array goes into
  slot \<open>i\<close> of the backing array of the slice, which is grown by empty strings where it
  ends, and the length is set to the number of elements afterwards. A string is
  stored in its slot; \<^verbatim>\<open>null\<close> has no effect and leaves in the slot what it holds;
  anything else is a type error. \<open>backing\<close> is what the backing array holds, from slot
  \<open>i\<close> on.
\<close>

fun decode_element :: "json \<Rightarrow> string \<Rightarrow> DecodeError + string" where
  "decode_element (JString x) old = Inr x"
| "decode_element JNull old = Inr old"
| "decode_element v old = Inl UnmarshalTypeError"

fun decode_elements :: "json list \<Rightarrow> string list \<Rightarrow> DecodeError + string list" where
  "decode_elements [] backing = Inr []"
| "decode_elements (x # xs) backing =
     (case decode_element x (case backing of [] \<Rightarrow> [] | old # rest \<Rightarrow> old) of
        Inl err \<Rightarrow> Inl err
      | Inr y \<Rightarrow>
          (case decode_elements xs (drop 1 backing) of
             Inl err \<Rightarrow> Inl err
           | Inr ys \<Rightarrow> Inr (y # ys)))"

text \<open>
  One member value for one field. The state of the decoder is the struct together with
  what the backing array of \<^verbatim>\<open>Details\<close> holds behind the length of the slice (a key
  can occur more than once, and a later array is decoded over an earlier one).
  \<^verbatim>\<open>null\<close> sets a slice to nil and has no effect on a string or a number. A number
  fits \<^verbatim>\<open>uint16\<close> when its literal is a plain numeral of a value from 0 to 65535. The
  empty array gives a new empty slice that is not nil. The library goes on after a type
  error and returns the earliest one; \<^verbatim>\<open>UnmarshalJSON\<close> then drops the struct, so the
  model stops at the first.
\<close>

fun decode_field ::
  "struct_field \<Rightarrow> json \<Rightarrow> errorJSON \<times> string list \<Rightarrow> DecodeError + errorJSON \<times> string list" where
  "decode_field FDetails JNull (tmp, behind) = Inr (tmp\<lparr>Details := None\<rparr>, [])"
| "decode_field f JNull (tmp, behind) = Inr (tmp, behind)"
| "decode_field FMessage (JString x) (tmp, behind) = Inr (tmp\<lparr>Message := x\<rparr>, behind)"
| "decode_field FCode (JInt n) (tmp, behind) =
     (if 0 \<le> n \<and> n \<le> 65535 then Inr (tmp\<lparr>Code := word_of_int n\<rparr>, behind)
      else Inl UnmarshalTypeError)"
| "decode_field FDetails (JArray xs) (tmp, behind) =
     (case decode_elements xs (seq (Details tmp) @ behind) of
        Inl err \<Rightarrow> Inl err
      | Inr ys \<Rightarrow>
          if xs = [] then Inr (tmp\<lparr>Details := Some []\<rparr>, [])
          else Inr (tmp\<lparr>Details := Some ys\<rparr>, drop (length xs) (seq (Details tmp) @ behind)))"
| "decode_field f v (tmp, behind) = Inl UnmarshalTypeError"

text \<open>The members of an object in order; a key that selects no field is skipped with its value.\<close>

fun decode_object ::
  "(string \<times> json) list \<Rightarrow> errorJSON \<times> string list \<Rightarrow> DecodeError + errorJSON \<times> string list" where
  "decode_object [] st = Inr st"
| "decode_object ((key, v) # kvs) st =
     (case field_of key of
        None \<Rightarrow> decode_object kvs st
      | Some f \<Rightarrow>
          (case decode_field f v st of
             Inl err \<Rightarrow> Inl err
           | Inr st' \<Rightarrow> decode_object kvs st'))"

text \<open>
  The whole input is checked first, for syntax and for nesting. A top-level \<^verbatim>\<open>null\<close>
  has no effect on a struct; any value other than \<^verbatim>\<open>null\<close> and an object is a type
  error.
\<close>

fun json_Unmarshal ::
  "jsontext \<Rightarrow> errorJSON \<times> string list \<Rightarrow> DecodeError + errorJSON \<times> string list" where
  "json_Unmarshal Invalid st = Inl SyntaxError"
| "json_Unmarshal (Valid v) st =
     (if 10000 < nesting v then Inl SyntaxError
      else (case v of
              JNull \<Rightarrow> Inr st
            | JObject kvs \<Rightarrow> decode_object kvs st
            | _ \<Rightarrow> Inl UnmarshalTypeError))"

text \<open>
  \<^verbatim>\<open>UnmarshalJSON\<close> decodes into a zero \<^verbatim>\<open>errorJSON\<close>, whose slice is nil and has no
  backing array; on an error it returns the error and the receiver stays as it was,
  otherwise it assigns three fields of the receiver. The result is the error or the
  receiver after the call.
\<close>

definition UnmarshalJSON :: "string list CError \<Rightarrow> jsontext \<Rightarrow> DecodeError + string list CError" where
  "UnmarshalJSON e data =
     (case json_Unmarshal data (\<lparr>Message = [], Code = 0, Details = None\<rparr>, []) of
        Inl err \<Rightarrow> Inl err
      | Inr (tmp, behind) \<Rightarrow>
          Inr (CError (wrapped e) (details e) (Details tmp) (Message tmp) (id' e) (Code tmp)))"

subsection \<open>Shapes of inputs\<close>

text \<open>
  The wire format is an object with the members \<^verbatim>\<open>message\<close> (a string), \<^verbatim>\<open>code\<close> (an
  integer) and, optionally, \<^verbatim>\<open>details\<close> (an array of strings). \<open>three_field_record\<close>
  says that the members \<open>kvs\<close> are such a record, in any order, with the given contents;
  \<open>member_typed\<close> says that one member is one of the three, of its type; \<open>has_shape\<close>
  says that an input is an object whose members of these three names have these types,
  \<^verbatim>\<open>details\<close> being optional.
\<close>

definition three_field_record ::
  "(string \<times> json) list \<Rightarrow> string \<Rightarrow> int \<Rightarrow> string list option \<Rightarrow> bool" where
  "three_field_record kvs m n ud =
     (distinct (map fst kvs) \<and>
      set (map fst kvs) \<subseteq> {''message'', ''code'', ''details''} \<and>
      map_of kvs ''message'' = Some (JString m) \<and>
      map_of kvs ''code'' = Some (JInt n) \<and> 0 \<le> n \<and> n \<le> 65535 \<and>
      map_of kvs ''details'' = map_option (\<lambda>ds. JArray (map JString ds)) ud)"

fun is_string :: "json \<Rightarrow> bool" where
  "is_string (JString x) = True"
| "is_string _ = False"

fun member_typed :: "string \<times> json \<Rightarrow> bool" where
  "member_typed (k, JString x) = (k = ''message'')"
| "member_typed (k, JInt n) = (k = ''code'' \<and> 0 \<le> n \<and> n \<le> 65535)"
| "member_typed (k, JArray xs) = (k = ''details'' \<and> list_all is_string xs)"
| "member_typed (k, v) = False"

definition has_shape :: "jsontext \<Rightarrow> bool" where
  "has_shape data =
     (case data of
        Valid (JObject kvs) \<Rightarrow>
          (case map_of kvs ''message'' of Some (JString x) \<Rightarrow> True | _ \<Rightarrow> False) \<and>
          (case map_of kvs ''code'' of Some (JInt n) \<Rightarrow> True | _ \<Rightarrow> False) \<and>
          (case map_of kvs ''details'' of
             None \<Rightarrow> True
           | Some (JArray xs) \<Rightarrow> list_all is_string xs
           | _ \<Rightarrow> False)
      | _ \<Rightarrow> False)"

text \<open>
  A key matches a tag exactly or up to case: letter by letter of the tag, the key has
  that letter, or its upper-case letter (32 less), or, for \<^verbatim>\<open>s\<close> and \<^verbatim>\<open>k\<close>, the rune
  outside ASCII that folds to them, U+017F (\<^verbatim>\<open>C5 BF\<close>) and U+212A (\<^verbatim>\<open>E2 84 AA\<close>).
  \<open>selects\<close> is the field whose tag a key matches.
\<close>

fun tag_matches :: "string \<Rightarrow> string \<Rightarrow> bool" where
  "tag_matches [] key = (key = [])"
| "tag_matches (t # ts) [] = False"
| "tag_matches (t # ts) (c # cs) =
     ((c = t \<or> (of_char c :: nat) + 32 = of_char t) \<and> tag_matches ts cs \<or>
      t = CHR ''s'' \<and> c = CHR 0xC5 \<and> take 1 cs = [CHR 0xBF] \<and> tag_matches ts (drop 1 cs) \<or>
      t = CHR ''k'' \<and> c = CHR 0xE2 \<and> take 2 cs = [CHR 0x84, CHR 0xAA] \<and> tag_matches ts (drop 2 cs))"

definition selects :: "string \<Rightarrow> struct_field option" where
  "selects key =
     (if tag_matches ''message'' key then Some FMessage
      else if tag_matches ''code'' key then Some FCode
      else if tag_matches ''details'' key then Some FDetails
      else None)"

text \<open>
  The inputs that decode without an error: valid JSON nested at most 10000 deep that is
  \<^verbatim>\<open>null\<close> or an object, where every member whose key selects a field holds
  \<^verbatim>\<open>null\<close> or a value of the type of the field: a string for \<^verbatim>\<open>message\<close>, a plain
  numeral from 0 to 65535 for \<^verbatim>\<open>code\<close>, an array of strings and \<^verbatim>\<open>null\<close>s for
  \<^verbatim>\<open>details\<close>.
\<close>

fun fits :: "struct_field \<Rightarrow> json \<Rightarrow> bool" where
  "fits f JNull = True"
| "fits FMessage (JString x) = True"
| "fits FCode (JInt n) = (0 \<le> n \<and> n \<le> 65535)"
| "fits FDetails (JArray xs) = list_all (\<lambda>x. is_string x \<or> x = JNull) xs"
| "fits f v = False"

definition member_fits :: "string \<times> json \<Rightarrow> bool" where
  "member_fits kv = (case selects (fst kv) of None \<Rightarrow> True | Some f \<Rightarrow> fits f (snd kv))"

fun accepted :: "jsontext \<Rightarrow> bool" where
  "accepted Invalid = False"
| "accepted (Valid JNull) = True"
| "accepted (Valid (JObject kvs)) = (nesting (JObject kvs) \<le> 10000 \<and> list_all member_fits kvs)"
| "accepted (Valid v) = False"

section \<open>Full diagnostics\<close>

text \<open>
  The values stored under \<^verbatim>\<open>interface{}\<close> in the maps of \<^verbatim>\<open>FullData\<close>: a string, a
  \<^verbatim>\<open>uint16\<close>, a \<^verbatim>\<open>[]string\<close> (stored only when its length is positive, so by its
  elements), and the \<^verbatim>\<open>[]map[string]interface{}\<close> of the chain. A Go map is a map.
\<close>

datatype any_value =
  AString string
| AUint16 "16 word"
| AStrings "string list"
| AMaps "(string \<rightharpoonup> any_value) list"

fun expandAllWrapped_loop :: "string list error option \<Rightarrow> (string \<rightharpoonup> any_value) list \<Rightarrow> (string \<rightharpoonup> any_value) list" where
  "expandAllWrapped_loop None chain0 = chain0"
| "expandAllWrapped_loop (Some (PtrCError (CError w d u m i c))) chain0 =
     (let wrappedData = Map.empty;
          wrappedData = wrappedData(''message'' \<mapsto> AString m);
          wrappedData = wrappedData(''code'' \<mapsto> AUint16 c);
          wrappedData = (if length (seq d) > 0 then wrappedData(''details'' \<mapsto> AStrings (seq d)) else wrappedData);
          wrappedData = (if length (seq u) > 0 then wrappedData(''user_details'' \<mapsto> AStrings (seq u)) else wrappedData)
      in expandAllWrapped_loop w (chain0 @ [wrappedData]))"
| "expandAllWrapped_loop (Some (Foreign t (HasUnwrap r))) chain0 =
     (let wrappedData = Map.empty;
          wrappedData = wrappedData(''message'' \<mapsto> AString t)
      in expandAllWrapped_loop r (chain0 @ [wrappedData]))"
| "expandAllWrapped_loop (Some (Foreign t NoUnwrap)) chain0 =
     (let wrappedData = Map.empty;
          wrappedData = wrappedData(''message'' \<mapsto> AString t)
      in expandAllWrapped_loop None (chain0 @ [wrappedData]))"

definition expandAllWrapped :: "string list error option \<Rightarrow> (string \<rightharpoonup> any_value) list" where
  "expandAllWrapped err = expandAllWrapped_loop err []"

definition FullData :: "string list CError \<Rightarrow> (string \<rightharpoonup> any_value)" where
  "FullData e =
     (let data = [''message'' \<mapsto> AString (msg e), ''code'' \<mapsto> AUint16 (code e)];
          data = (if length (seq (details e)) > 0 then data(''details'' \<mapsto> AStrings (seq (details e))) else data);
          data = (if length (seq (userdetails e)) > 0 then data(''user_details'' \<mapsto> AStrings (seq (userdetails e))) else data);
          data = (if wrapped e \<noteq> None
                  then (let wrappedChain = expandAllWrapped (wrapped e)
                        in if length wrappedChain > 0 then data(''wrapped'' \<mapsto> AMaps wrappedChain) else data)
                  else data)
      in data)"

text \<open>
  The record of one chain link as the specification describes it: message, code,
  details and user details (each of the two only if non-empty) of a \<^verbatim>\<open>CError\<close>, the
  rendered text alone of a foreign error.
\<close>

fun link_record :: "string list error \<Rightarrow> (string \<rightharpoonup> any_value)" where
  "link_record (PtrCError c) =
     (\<lambda>k. if k = ''message'' then Some (AString (msg c))
          else if k = ''code'' then Some (AUint16 (code c))
          else if k = ''details'' \<and> seq (details c) \<noteq> [] then Some (AStrings (seq (details c)))
          else if k = ''user_details'' \<and> seq (userdetails c) \<noteq> [] then Some (AStrings (seq (userdetails c)))
          else None)"
| "link_record (Foreign t u) = (\<lambda>k. if k = ''message'' then Some (AString t) else None)"

section \<open>IsCode\<close>

text \<open>The argument is a Go \<^verbatim>\<open>int\<close>, taken as 64 bits wide and signed.\<close>

definition IsCode :: "'s CError \<Rightarrow> 64 word \<Rightarrow> bool" where
  "IsCode e code0 =
     (if code0 <s 0 \<or> 65535 <s code0 then False
      else code e = ucast code0)"

section \<open>Auxiliary facts\<close>

subsection \<open>Words\<close>

lemma sint_nonneg_uint: "0 \<le> sint c \<Longrightarrow> uint c = sint c" for c :: "64 word"
proof -
  assume a: "0 \<le> sint c"
  have "sint c < 2 ^ 64" using sint_lt [of c] by simp
  then have "take_bit 64 (sint c) = sint c"
    using a by (simp add: take_bit_int_eq_self)
  then show ?thesis using uint_sint [of c] by simp
qed

lemma uint_ucast_in_range:
  "uint (ucast c :: 16 word) = sint c" if "0 \<le> sint c" "sint c \<le> 65535" for c :: "64 word"
proof -
  have u: "uint c = sint c" using that(1) by (rule sint_nonneg_uint)
  have "uint (ucast c :: 16 word) = take_bit 16 (uint c)"
    by (simp add: unsigned_ucast_eq)
  also have "\<dots> = uint c"
    using that u by (simp add: take_bit_int_eq_self)
  finally show ?thesis using u by simp
qed

lemma word32_of_nat_eq: "i < j \<Longrightarrow> (of_nat i = (of_nat j :: 32 word)) = (2 ^ 32 dvd (j - i))"
proof -
  assume a: "i < j"
  have "(of_nat i = (of_nat j :: 32 word)) = (take_bit 32 i = take_bit 32 j)"
    by (simp add: word_of_nat_eq_iff)
  also have "\<dots> = (j mod 2 ^ 32 = i mod 2 ^ 32)"
    by (auto simp: take_bit_eq_mod)
  also have "\<dots> = (2 ^ 32 dvd (j - i))"
    using a by (simp add: mod_eq_dvd_iff_nat)
  finally show ?thesis .
qed

lemma code_roundtrip: "0 \<le> uint (c :: 16 word) \<and> uint c \<le> 65535 \<and> word_of_int (uint c) = c"
  using uint_lt2p [of c] by simp

subsection \<open>The counter\<close>

lemma construct_id: "id' (fst (construct k n)) = n + 1 \<and> snd (construct k n) = n + 1"
  by (cases k) (simp_all add: New_def Wrap_def Let_def)

lemma constructions_length: "length (constructions ks n) = length ks"
  by (induction ks arbitrary: n) simp_all

lemma constructions_id:
  "i < length ks \<Longrightarrow> id' (constructions ks n ! i) = n + 1 + of_nat i"
proof (induction ks arbitrary: n i)
  case Nil
  then show ?case by simp
next
  case (Cons k ks)
  show ?case
  proof (cases i)
    case 0
    then show ?thesis by (simp add: construct_id)
  next
    case (Suc j)
    then have "j < length ks" using Cons.prems by simp
    from Cons.IH [OF this, of "n + 1"] Suc show ?thesis
      by (simp add: construct_id add.assoc)
  qed
qed

subsection \<open>The store\<close>

lemma len_elems: "allocated st s \<Longrightarrow> length (elems st s) = len_of_slice s"
  by (auto simp: allocated_def elems_def len_of_slice_def split: option.splits)

lemma elems_other_array:
  "allocated st s \<Longrightarrow> next_free st \<le> p \<Longrightarrow>
     elems (st\<lparr>arrays := (arrays st)(p \<mapsto> a), next_free := k\<rparr>) s = elems st s"
  by (auto simp: allocated_def elems_def array_at_def split: option.splits)

lemma drop_replicate_Suc: "drop n (x # replicate n x) = [x]"
proof -
  have "x # replicate n x = replicate n x @ [x]" by (simp add: replicate_append_same)
  then show ?thesis by simp
qed

text \<open>The three steps \<^verbatim>\<open>make\<close>, \<^verbatim>\<open>copy\<close>, \<^verbatim>\<open>append\<close> on an allocated slice.\<close>

lemma make_copy_append:
  assumes "allocated st s"
  shows "(let (d0, st1) = make_slice (len_of_slice s) (len_of_slice s + 1) st;
              st2 = copy_slice d0 s st1
          in append_slice d0 x st2) =
    (Slice (next_free st) (Suc (len_of_slice s)) (Suc (len_of_slice s)),
     st\<lparr>arrays := (arrays st)(next_free st \<mapsto> elems st s @ [x]), next_free := Suc (next_free st)\<rparr>)"
proof -
  let ?n = "len_of_slice s"
  let ?p = "next_free st"
  let ?st1 = "st\<lparr>arrays := (arrays st)(?p \<mapsto> [] # replicate ?n []), next_free := Suc ?p\<rparr>"
  let ?d0 = "Slice ?p ?n (Suc ?n)"
  have mk: "make_slice ?n (?n + 1) st = (?d0, ?st1)"
    by (simp add: make_slice_def)
  have l: "length (elems st s) = ?n" using assms by (rule len_elems)
  have rd: "elems ?st1 s = elems st s"
    using assms by (rule elems_other_array) simp
  let ?st2 = "st\<lparr>arrays := (arrays st)(?p \<mapsto> elems st s @ [[]]), next_free := Suc ?p\<rparr>"
  have cp: "copy_slice ?d0 s ?st1 = ?st2"
    using l by (simp add: copy_slice_def rd array_at_def Let_def drop_replicate_Suc)
  have ap: "append_slice ?d0 x ?st2 =
     (Slice ?p (Suc ?n) (Suc ?n), st\<lparr>arrays := (arrays st)(?p \<mapsto> elems st s @ [x]), next_free := Suc ?p\<rparr>)"
  proof -
    have "(elems st s @ [[]])[?n := x] = elems st s @ [x]"
      using list_update_length [of "elems st s" "[]" "[]" x] l by simp
    then show ?thesis by (simp add: append_slice_def array_at_def)
  qed
  show ?thesis
    by (simp only: mk cp ap Let_def prod.case)
qed

lemma WithDetail_eq:
  assumes "allocated st (details e)"
  shows "WithDetail e x st =
    (CError (wrapped e)
        (Some (Slice (next_free st) (Suc (len_of_slice (details e))) (Suc (len_of_slice (details e)))))
        (userdetails e) (msg e) (id' e) (code e),
     st\<lparr>arrays := (arrays st)(next_free st \<mapsto> elems st (details e) @ [x]), next_free := Suc (next_free st)\<rparr>)"
  using make_copy_append [OF assms, of x]
  by (simp add: WithDetail_def Let_def split: prod.splits)

lemma WithUserDetail_eq:
  assumes "allocated st (userdetails e)"
  shows "WithUserDetail e x st =
    (CError (wrapped e) (details e)
        (Some (Slice (next_free st) (Suc (len_of_slice (userdetails e))) (Suc (len_of_slice (userdetails e)))))
        (msg e) (id' e) (code e),
     st\<lparr>arrays := (arrays st)(next_free st \<mapsto> elems st (userdetails e) @ [x]), next_free := Suc (next_free st)\<rparr>)"
  using make_copy_append [OF assms, of x]
  by (simp add: WithUserDetail_def Let_def split: prod.splits)

lemma elems_frame:
  "allocated st s \<Longrightarrow> \<forall>p<next_free st. arrays st' p = arrays st p \<Longrightarrow> elems st' s = elems st s"
  by (auto simp: allocated_def elems_def array_at_def split: option.splits)

lemma allocated_frame:
  "allocated st s \<Longrightarrow> \<forall>p<next_free st. arrays st' p = arrays st p \<Longrightarrow> next_free st \<le> next_free st'
     \<Longrightarrow> allocated st' s"
  by (auto simp: allocated_def array_at_def split: option.splits)

lemma not_shares_fresh:
  "allocated st s \<Longrightarrow> \<not> shares_storage (Some (Slice (next_free st) n c)) s"
  by (auto simp: allocated_def shares_storage_def split: option.splits)

lemma WithDetail_store:
  assumes "allocated st (details a)"
  shows "\<forall>p<next_free st. arrays (snd (WithDetail a x st)) p = arrays st p"
    and "next_free st \<le> next_free (snd (WithDetail a x st))"
    and "details (fst (WithDetail a x st)) =
           Some (Slice (next_free st) (Suc (len_of_slice (details a))) (Suc (len_of_slice (details a))))"
    and "elems (snd (WithDetail a x st)) (details (fst (WithDetail a x st))) = elems st (details a) @ [x]"
    and "allocated (snd (WithDetail a x st)) (details (fst (WithDetail a x st)))"
    and "userdetails (fst (WithDetail a x st)) = userdetails a"
  using len_elems [OF assms]
  by (simp_all add: WithDetail_eq [OF assms] elems_def array_at_def allocated_def)

lemma WithUserDetail_store:
  assumes "allocated st (userdetails a)"
  shows "\<forall>p<next_free st. arrays (snd (WithUserDetail a x st)) p = arrays st p"
    and "next_free st \<le> next_free (snd (WithUserDetail a x st))"
    and "userdetails (fst (WithUserDetail a x st)) =
           Some (Slice (next_free st) (Suc (len_of_slice (userdetails a))) (Suc (len_of_slice (userdetails a))))"
    and "elems (snd (WithUserDetail a x st)) (userdetails (fst (WithUserDetail a x st))) =
           elems st (userdetails a) @ [x]"
    and "allocated (snd (WithUserDetail a x st)) (userdetails (fst (WithUserDetail a x st)))"
    and "details (fst (WithUserDetail a x st)) = details a"
  using len_elems [OF assms]
  by (simp_all add: WithUserDetail_eq [OF assms] elems_def array_at_def allocated_def)

subsection \<open>The chain\<close>

lemma chain_next: "chain (Some l) = l # chain (next_link l)"
proof (cases l)
  case (PtrCError c)
  then show ?thesis by (cases c) simp
next
  case (Foreign t u)
  then show ?thesis by (cases u) simp_all
qed

lemma UnwrapAll_loop_chain: "UnwrapAll_loop cur acc = acc @ chain cur"
  by (induction cur acc rule: UnwrapAll_loop.induct) simp_all

lemma chain_nonempty: "cur \<noteq> None \<Longrightarrow> chain cur \<noteq> []"
  by (induction cur rule: chain.induct) simp_all

lemma expand_step_CError:
  "expandAllWrapped_loop (Some (PtrCError (CError w d u m i c))) acc =
     expandAllWrapped_loop w (acc @ [link_record (PtrCError (CError w d u m i c))])"
  unfolding expandAllWrapped_loop.simps Let_def
  by (rule arg_cong [where f = "\<lambda>x. expandAllWrapped_loop w (acc @ [x])"]) (rule ext, simp)

lemma expand_step_Unwrap:
  "expandAllWrapped_loop (Some (Foreign t (HasUnwrap r))) acc =
     expandAllWrapped_loop r (acc @ [link_record (Foreign t (HasUnwrap r))])"
  unfolding expandAllWrapped_loop.simps Let_def
  by (rule arg_cong [where f = "\<lambda>x. expandAllWrapped_loop r (acc @ [x])"]) (rule ext, simp)

lemma expand_step_plain:
  "expandAllWrapped_loop (Some (Foreign t NoUnwrap)) acc = acc @ [link_record (Foreign t NoUnwrap)]"
  unfolding expandAllWrapped_loop.simps Let_def
  by (rule arg_cong [where f = "\<lambda>x. acc @ [x]"]) (rule ext, simp)

lemma expand_loop_chain: "expandAllWrapped_loop cur acc = acc @ map link_record (chain cur)"
proof (induction cur arbitrary: acc rule: chain.induct)
  case 1
  then show ?case by simp
next
  case (2 w d u m i c)
  show ?case
    by (simp only: expand_step_CError "2.IH") simp
next
  case (3 t r)
  show ?case
    by (simp only: expand_step_Unwrap "3.IH") simp
next
  case (4 t)
  show ?case
    by (simp only: expand_step_plain) simp
qed

subsection \<open>Values read in a store\<close>

lemma view_fields:
  "msg (view st e) = msg e" "code (view st e) = code e" "id' (view st e) = id' e"
  "seq (details (view st e)) = elems st (details e)"
  "seq (userdetails (view st e)) = elems st (userdetails e)"
  by (cases e; cases "details e"; cases "userdetails e"; simp add: view_def elems_def)+

text \<open>
  The example of the specification: \<^verbatim>\<open>New(404, "user not found")\<close>, then
  \<^verbatim>\<open>WithDetail("user_id: 123")\<close>, then \<^verbatim>\<open>WithUserDetail("User not found")\<close>, then
  \<^verbatim>\<open>MarshalJSON\<close>.
\<close>

lemma MarshalJSON_example:
  "MarshalJSON
     (view (snd (WithUserDetail (fst (WithDetail (fst (New 404 ''user not found'' 0)) ''user_id: 123'' empty_store))
                   ''User not found''
                   (snd (WithDetail (fst (New 404 ''user not found'' 0)) ''user_id: 123'' empty_store))))
           (fst (WithUserDetail (fst (WithDetail (fst (New 404 ''user not found'' 0)) ''user_id: 123'' empty_store))
                   ''User not found''
                   (snd (WithDetail (fst (New 404 ''user not found'' 0)) ''user_id: 123'' empty_store))))) =
   Valid (JObject [(''message'', JString ''user not found''), (''code'', JInt 404),
                   (''details'', JArray [JString ''User not found''])])"
  by (simp add: MarshalJSON_def json_Marshal_def view_def New_def WithDetail_def WithUserDetail_def
      make_slice_def copy_slice_def append_slice_def len_of_slice_def elems_def array_at_def
      empty_store_def Let_def)

subsection \<open>Encoding and decoding\<close>

lemma valid_coerce: "ValidString s \<Longrightarrow> coerceUTF8 s = s"
  by (induction s rule: coerceUTF8.induct) (auto split: option.splits)

lemma map_valid: "\<forall>d\<in>set xs. ValidString d \<Longrightarrow> map coerceUTF8 xs = xs"
  by (induction xs) (simp_all add: valid_coerce)

lemma field_of_tags:
  "field_of ''message'' = Some FMessage"
  "field_of ''code'' = Some FCode"
  "field_of ''details'' = Some FDetails"
  by (simp_all add: field_of_def)

lemma of_char_upperASCII:
  "(of_char (upperASCII c) :: nat) =
     (if 97 \<le> (of_char c :: nat) \<and> (of_char c :: nat) \<le> 122 then of_char c - 32 else of_char c)"
  by (auto simp: upperASCII_def)

lemma upper_arith:
  fixes n m :: nat
  assumes "97 \<le> m" and "m \<le> 122"
  shows "((if 97 \<le> n \<and> n \<le> 122 then n - 32 else n) = m - 32) = (n = m \<or> n + 32 = m)"
  using assms by auto

lemma foldName_Nil_iff: "(foldName key = []) = (key = [])"
  by (cases key) simp_all

lemma foldName_tag:
  assumes "\<forall>t\<in>set tag. 97 \<le> (of_char t :: nat) \<and> (of_char t :: nat) \<le> 122"
  shows "(foldName key = map upperASCII tag) = tag_matches tag key"
  using assms
proof (induction tag arbitrary: key)
  case Nil
  then show ?case by (simp add: foldName_Nil_iff)
next
  case (Cons t ts)
  have lower: "97 \<le> (of_char t :: nat)" "(of_char t :: nat) \<le> 122"
    using Cons.prems by simp_all
  have IH: "(foldName k = map upperASCII ts) = tag_matches ts k" for k
    using Cons.IH [of k] Cons.prems by simp
  have up: "(of_char (upperASCII t) :: nat) = of_char t - 32"
    using lower by (simp add: of_char_upperASCII)
  show ?case
  proof (cases key)
    case Nil
    then show ?thesis by simp
  next
    case (Cons c cs)
    have eq: "(x = upperASCII t) = ((of_char x :: nat) = of_char t - 32)" for x
      using up of_char_eq_iff [of x "upperASCII t", where ?'a = nat] by simp
    consider (ascii) "(of_char c :: nat) < 128"
      | (S) "\<not> (of_char c :: nat) < 128" "c = CHR 0xC5 \<and> take 1 cs = [CHR 0xBF]"
      | (K) "\<not> (of_char c :: nat) < 128" "\<not> (c = CHR 0xC5 \<and> take 1 cs = [CHR 0xBF])"
            "c = CHR 0xE2 \<and> take 2 cs = [CHR 0x84, CHR 0xAA]"
      | (other) "\<not> (of_char c :: nat) < 128" "\<not> (c = CHR 0xC5 \<and> take 1 cs = [CHR 0xBF])"
            "\<not> (c = CHR 0xE2 \<and> take 2 cs = [CHR 0x84, CHR 0xAA])"
      by blast
    then show ?thesis
    proof cases
      case ascii
      have "(upperASCII c = upperASCII t) = ((of_char (upperASCII c) :: nat) = of_char t - 32)"
        by (rule eq)
      also have "\<dots> = ((of_char c :: nat) = of_char t \<or> (of_char c :: nat) + 32 = of_char t)"
        unfolding of_char_upperASCII using lower by (rule upper_arith)
      also have "\<dots> = (c = t \<or> (of_char c :: nat) + 32 = of_char t)"
        by simp
      finally have "(upperASCII c = upperASCII t) = (c = t \<or> (of_char c :: nat) + 32 = of_char t)" .
      moreover have "c \<noteq> CHR 0xC5" "c \<noteq> CHR 0xE2"
        using ascii by auto
      ultimately show ?thesis
        using ascii Cons IH [of cs] by simp
    next
      case S
      have "(CHR ''S'' = upperASCII t) = (t = CHR ''s'')"
        using lower of_char_eq_iff [of t "CHR ''s''", where ?'a = nat] by (auto simp: eq)
      moreover have "c \<noteq> t" "(of_char c :: nat) + 32 \<noteq> of_char t" "c \<noteq> CHR 0xE2"
        using S lower by auto
      ultimately show ?thesis
        using S Cons IH [of "drop 1 cs"] by simp
    next
      case K
      have "(CHR ''K'' = upperASCII t) = (t = CHR ''k'')"
        using lower of_char_eq_iff [of t "CHR ''k''", where ?'a = nat] by (auto simp: eq)
      moreover have "c \<noteq> t" "(of_char c :: nat) + 32 \<noteq> of_char t"
        using K lower by auto
      ultimately show ?thesis
        using K Cons IH [of "drop 2 cs"] by simp
    next
      case other
      have "c \<noteq> upperASCII t" "c \<noteq> t" "(of_char c :: nat) + 32 \<noteq> of_char t"
        using other lower by (auto simp: eq)
      then show ?thesis
        using other Cons by auto
    qed
  qed
qed

lemma upper_tags:
  "map upperASCII ''message'' = ''MESSAGE''"
  "map upperASCII ''code'' = ''CODE''"
  "map upperASCII ''details'' = ''DETAILS''"
  by code_simp+

lemma field_of_selects: "field_of key = selects key"
proof -
  have m: "(foldName key = ''MESSAGE'') = tag_matches ''message'' key"
    using foldName_tag [of "''message''" key] by (simp only: upper_tags) simp
  have c: "(foldName key = ''CODE'') = tag_matches ''code'' key"
    using foldName_tag [of "''code''" key] by (simp only: upper_tags) simp
  have d: "(foldName key = ''DETAILS'') = tag_matches ''details'' key"
    using foldName_tag [of "''details''" key] by (simp only: upper_tags) simp
  consider "key = ''message''" | "key = ''code''" | "key = ''details''"
    | "key \<noteq> ''message''" "key \<noteq> ''code''" "key \<noteq> ''details''"
    by blast
  then show ?thesis
  proof cases
    case 1
    then show ?thesis by (simp add: field_of_def selects_def)
  next
    case 2
    then show ?thesis by (simp add: field_of_def selects_def)
  next
    case 3
    then show ?thesis by (simp add: field_of_def selects_def)
  next
    case 4
    then show ?thesis by (simp add: field_of_def selects_def m c d)
  qed
qed


lemma maximum_le: "\<forall>n\<in>set ns. n \<le> k \<Longrightarrow> maximum ns \<le> k"
  by (induction ns) (simp_all add: maximum_def)

lemma nesting_members_le:
  "\<forall>kv\<in>set kvs. nesting (snd kv) \<le> k \<Longrightarrow> nesting (JObject kvs) \<le> Suc k"
  using maximum_le [of "map (\<lambda>kv. nesting (snd kv)) kvs" k] by simp

lemma nesting_strings: "nesting (JArray (map (\<lambda>x. JString (f x)) xs)) = 1"
proof -
  have "maximum (map nesting (map (\<lambda>x. JString (f x)) xs)) \<le> 0"
    by (rule maximum_le) simp
  then show ?thesis by simp
qed

lemma decode_elements_strings:
  "decode_elements (map (\<lambda>x. JString (f x)) xs) backing = Inr (map f xs)"
  by (induction xs arbitrary: backing) simp_all

lemma decode_elements_JString: "decode_elements (map JString xs) backing = Inr xs"
  using decode_elements_strings [of "\<lambda>x. x" xs backing] by simp

lemma map_JString_eq: "(map JString xs = map JString ys) = (xs = ys)"
  by (rule inj_map_eq_map) (simp add: inj_def)

lemma MarshalJSON_eq:
  "MarshalJSON e = Valid (JObject
       ([(''message'', JString (coerceUTF8 (msg e))), (''code'', JInt (uint (code e)))] @
        (if seq (userdetails e) = [] then []
         else [(''details'', JArray (map (\<lambda>x. JString (coerceUTF8 x)) (seq (userdetails e))))])))"
  by (simp add: MarshalJSON_def json_Marshal_def)

lemma nesting_MarshalJSON: "MarshalJSON v = Valid j \<Longrightarrow> nesting j \<le> 2"
  using nesting_strings [of coerceUTF8 "seq (userdetails v)"]
  by (auto simp: MarshalJSON_eq maximum_def)

lemma roundtrip_coerced:
  "UnmarshalJSON e (MarshalJSON v) =
     Inr (CError (wrapped e) (details e)
            (if seq (userdetails v) = [] then None else Some (map coerceUTF8 (seq (userdetails v))))
            (coerceUTF8 (msg v)) (id' e) (code v))"
proof -
  obtain j where j: "MarshalJSON v = Valid j" by (simp add: MarshalJSON_eq)
  then have "\<not> 10000 < nesting j" using nesting_MarshalJSON [of v j] by simp
  then show ?thesis
    using j code_roundtrip [of "code v"]
    by (auto simp: MarshalJSON_eq UnmarshalJSON_def field_of_tags decode_elements_strings)
qed

lemma all_strings: "list_all is_string xs = (\<exists>ds. xs = map JString ds)"
proof (induction xs)
  case Nil
  then show ?case by simp
next
  case (Cons x xs)
  show ?case
  proof (cases x)
    case (JString y)
    have "(\<exists>ds. xs = map JString ds) = (\<exists>ds. JString y # xs = map JString ds)"
    proof
      assume "\<exists>ds. xs = map JString ds"
      then obtain ds where "xs = map JString ds" ..
      then have "JString y # xs = map JString (y # ds)" by simp
      then show "\<exists>ds. JString y # xs = map JString ds" ..
    next
      assume "\<exists>ds. JString y # xs = map JString ds"
      then obtain ds where ds: "JString y # xs = map JString ds" ..
      then have "xs = map JString (tl ds)" by (cases ds) auto
      then show "\<exists>ds. xs = map JString ds" ..
    qed
    then show ?thesis using Cons JString by simp
  qed auto
qed

lemma member_typed_iff:
  "member_typed kv =
     ((fst kv = ''message'' \<and> (\<exists>x. snd kv = JString x)) \<or>
      (fst kv = ''code'' \<and> (\<exists>n. snd kv = JInt n \<and> 0 \<le> n \<and> n \<le> 65535)) \<or>
      (fst kv = ''details'' \<and> (\<exists>ds. snd kv = JArray (map JString ds))))"
proof (cases kv)
  case (Pair k v)
  then show ?thesis by (cases v) (auto simp: all_strings)
qed

lemma decode_object_typed:
  assumes "distinct (map fst kvs)" and "\<forall>kv\<in>set kvs. member_typed kv"
  shows "\<exists>r b. decode_object kvs (tmp, behind) = Inr (r, b) \<and>
           (\<forall>x. map_of kvs ''message'' = Some (JString x) \<longrightarrow> Message r = x) \<and>
           (map_of kvs ''message'' = None \<longrightarrow> Message r = Message tmp) \<and>
           (\<forall>n. map_of kvs ''code'' = Some (JInt n) \<longrightarrow> Code r = word_of_int n) \<and>
           (map_of kvs ''code'' = None \<longrightarrow> Code r = Code tmp) \<and>
           (\<forall>ds. map_of kvs ''details'' = Some (JArray (map JString ds)) \<longrightarrow> Details r = Some ds) \<and>
           (map_of kvs ''details'' = None \<longrightarrow> Details r = Details tmp)"
  using assms
proof (induction kvs arbitrary: tmp behind)
  case Nil
  then show ?case by simp
next
  case (Cons kv kvs)
  obtain k v where kv: "kv = (k, v)" by (cases kv)
  have d: "distinct (map fst kvs)" and t: "\<forall>kv\<in>set kvs. member_typed kv" and nk: "map_of kvs k = None"
    using Cons.prems kv by (auto simp: map_of_eq_None_iff)
  have tk: "member_typed (k, v)" using Cons.prems kv by simp
  then consider (m) x where "k = ''message''" "v = JString x"
    | (c) n where "k = ''code''" "v = JInt n" "0 \<le> n" "n \<le> 65535"
    | (d) ds where "k = ''details''" "v = JArray (map JString ds)"
    by (auto simp: member_typed_iff)
  then show ?case
  proof cases
    case m
    from Cons.IH [OF d t, of "tmp\<lparr>Message := x\<rparr>" behind] nk m kv show ?thesis
      by (auto simp: field_of_tags)
  next
    case c
    from Cons.IH [OF d t, of "tmp\<lparr>Code := word_of_int n\<rparr>" behind] nk c kv show ?thesis
      by (auto simp: field_of_tags)
  next
    case d
    have step: "\<exists>b. decode_field FDetails v (tmp, behind) = Inr (tmp\<lparr>Details := Some ds\<rparr>, b)"
      using d by (simp add: decode_elements_JString)
    then obtain b where b: "decode_field FDetails v (tmp, behind) = Inr (tmp\<lparr>Details := Some ds\<rparr>, b)" ..
    from Cons.IH [OF \<open>distinct (map fst kvs)\<close> t, of "tmp\<lparr>Details := Some ds\<rparr>" b] nk d kv b show ?thesis
      by (auto simp: field_of_tags map_JString_eq)
  qed
qed

lemma record_typed:
  assumes "three_field_record kvs m n ud"
  shows "\<forall>kv\<in>set kvs. member_typed kv"
proof
  fix kv assume kv: "kv \<in> set kvs"
  obtain k v where e: "kv = (k, v)" by (cases kv)
  have dist: "distinct (map fst kvs)"
    and keys: "set (map fst kvs) \<subseteq> {''message'', ''code'', ''details''}"
    and mm: "map_of kvs ''message'' = Some (JString m)"
    and mc: "map_of kvs ''code'' = Some (JInt n)" and rng: "0 \<le> n" "n \<le> 65535"
    and md: "map_of kvs ''details'' = map_option (\<lambda>ds. JArray (map JString ds)) ud"
    using assms unfolding three_field_record_def by blast+
  have mo: "map_of kvs k = Some v"
    using dist kv e by simp
  have "k \<in> set (map fst kvs)" using kv e by force
  then have "k = ''message'' \<or> k = ''code'' \<or> k = ''details''"
    using keys by blast
  then show "member_typed kv"
  proof (elim disjE)
    assume "k = ''message''"
    then show ?thesis using mo mm e by (auto simp: member_typed_iff)
  next
    assume "k = ''code''"
    then show ?thesis using mo mc rng e by (auto simp: member_typed_iff)
  next
    assume "k = ''details''"
    then show ?thesis using mo md e by (cases ud) (auto simp: member_typed_iff)
  qed
qed

lemma nesting_record:
  assumes "\<forall>kv\<in>set kvs. member_typed kv"
  shows "nesting (JObject kvs) \<le> 2"
proof -
  have "nesting (snd kv) \<le> 1" if "kv \<in> set kvs" for kv
  proof -
    have "member_typed kv" using assms that by simp
    then consider x where "snd kv = JString x" | n where "snd kv = JInt n"
      | ds where "snd kv = JArray (map JString ds)"
      by (auto simp: member_typed_iff)
    then show ?thesis
      using nesting_strings [of "\<lambda>x. x"] by cases simp_all
  qed
  then show ?thesis
    using nesting_members_le [of kvs 1] by simp
qed

lemma decode_element_isl: "isl (decode_element x old) = (\<not> (is_string x \<or> x = JNull))"
  by (cases x) simp_all

lemma decode_elements_isl:
  "isl (decode_elements xs backing) = (\<not> list_all (\<lambda>x. is_string x \<or> x = JNull) xs)"
proof (induction xs arbitrary: backing)
  case Nil
  then show ?case by simp
next
  case (Cons x xs)
  let ?old = "case backing of [] \<Rightarrow> [] | old # rest \<Rightarrow> old"
  show ?case
    using decode_element_isl [of x ?old] Cons.IH [of "drop 1 backing"]
    by (cases "decode_element x ?old"; cases "decode_elements xs (drop 1 backing)") auto
qed

lemma decode_field_isl: "isl (decode_field f v st) = (\<not> fits f v)"
proof (cases st)
  case (Pair tmp behind)
  show ?thesis
  proof (cases v)
    case (JArray xs)
    then show ?thesis
      using Pair decode_elements_isl [of xs "seq (Details tmp) @ behind"]
      by (cases f; cases "decode_elements xs (seq (Details tmp) @ behind)") auto
  qed (use Pair in \<open>cases f; simp\<close>)+
qed

lemma decode_object_isl: "isl (decode_object kvs st) = (\<not> list_all member_fits kvs)"
proof (induction kvs arbitrary: st)
  case Nil
  then show ?case by simp
next
  case (Cons kv kvs)
  obtain k v where kv: "kv = (k, v)" by (cases kv)
  show ?case
  proof (cases "field_of k")
    case None
    then show ?thesis using Cons.IH kv by (simp add: member_fits_def field_of_selects [symmetric])
  next
    case (Some f)
    show ?thesis
    proof (cases "decode_field f v st")
      case (Inl err)
      then have "\<not> fits f v" using decode_field_isl [of f v st] by simp
      then show ?thesis using Inl Some kv by (simp add: member_fits_def field_of_selects [symmetric])
    next
      case (Inr t)
      then have "fits f v" using decode_field_isl [of f v st] by simp
      then show ?thesis using Inr Some kv Cons.IH [of t]
        by (simp add: member_fits_def field_of_selects [symmetric])
    qed
  qed
qed

lemma json_Unmarshal_isl: "isl (json_Unmarshal data st) = (\<not> accepted data)"
proof (cases data)
  case Invalid
  then show ?thesis by simp
next
  case (Valid v)
  then show ?thesis by (cases v) (simp_all add: decode_object_isl)
qed

text \<open>
  Two inputs outside the wire format: a repeated \<^verbatim>\<open>details\<close> key, whose second array
  is decoded over the first, and a value nested 10001 deep under a key that selects no
  field.
\<close>

lemma repeated_details_key:
  "UnmarshalJSON (CError None None None [] 0 0)
     (Valid (JObject [(''details'', JArray [JString ''a'', JString ''b'']), (''details'', JArray [JNull])])) =
   Inr (CError None None (Some [''a'']) [] 0 0)"
  by (simp add: UnmarshalJSON_def field_of_tags maximum_def)

lemma nesting_funpow: "nesting (((\<lambda>v. JArray [v]) ^^ n) JNull) = n"
  by (induction n) (simp_all add: maximum_def)

lemma deep_input_refused:
  "UnmarshalJSON e (Valid (JObject [(''x'', ((\<lambda>v. JArray [v]) ^^ 10000) JNull)])) = Inl SyntaxError"
  using nesting_funpow [of 10000] by (simp add: UnmarshalJSON_def maximum_def)

section \<open>Properties\<close>

subsection \<open>Identity under derivation\<close>

text \<open>
  C1. A value derived from \<open>a\<close> by one of \<^verbatim>\<open>WithCode\<close>, \<^verbatim>\<open>WithMessage\<close>, \<^verbatim>\<open>WithWrap\<close>,
  \<^verbatim>\<open>WithDetail\<close>, \<^verbatim>\<open>WithUserDetail\<close>, with any argument, has the \<^verbatim>\<open>id\<close> of \<open>a\<close>, and
  \<^verbatim>\<open>Is\<close> holds between the two in both directions, whatever the other fields are.
\<close>

theorem derivation_keeps_identity:
  "\<forall>b\<in>set [WithCode a c, WithMessage a m, WithWrap a w,
              fst (WithDetail a d st), fst (WithUserDetail a u st)].
     id' b = id' a \<and> Is a (Some (PtrCError b)) \<and> Is b (Some (PtrCError a))"
  by (simp add: WithCode_def WithMessage_def WithWrap_def WithDetail_def WithUserDetail_def
      Is_def split: prod.splits)

theorem derivation_keeps_identity_witness:
  "id' (WithCode (CError None None None ''not found'' 31 404 :: slice CError) 410) = 31 \<and>
   Is (CError None None None ''not found'' 31 404)
      (Some (PtrCError (fst (WithDetail (CError None None None ''not found'' 31 404) ''user_id: 123'' empty_store)))) \<and>
   Is (WithMessage (CError None None None ''not found'' 31 404) ''gone'')
      (Some (PtrCError (CError None None None ''not found'' 31 404 :: slice CError)))"
  using derivation_keeps_identity [of "CError None None None ''not found'' 31 404" 410 "''gone''" None
      "''user_id: 123''" empty_store "''x''"]
  by simp

subsection \<open>Safe serialization\<close>

text \<open>
  C2, as the code has it. The output of \<^verbatim>\<open>MarshalJSON\<close> is the object with exactly the
  members \<^verbatim>\<open>message\<close>, \<^verbatim>\<open>code\<close> and \<^verbatim>\<open>details\<close>, in this order, \<^verbatim>\<open>details\<close> left out
  when there are no user details; \<^verbatim>\<open>code\<close> is the code, and \<^verbatim>\<open>message\<close> and the
  elements of \<^verbatim>\<open>details\<close> are the message and the user details coerced to valid UTF-8
  (each byte that starts no valid encoding replaced by U+FFFD), so they are the message
  and the user details themselves when these are valid UTF-8. The output is the same
  when the technical details, the cause and the identity are erased: nothing of them is
  in it.
\<close>

theorem MarshalJSON_members:
  "MarshalJSON e =
     Valid (JObject
       ([(''message'', JString (coerceUTF8 (msg e))), (''code'', JInt (uint (code e)))] @
        (if seq (userdetails e) = [] then []
         else [(''details'', JArray (map (\<lambda>x. JString (coerceUTF8 x)) (seq (userdetails e))))]))) \<and>
   MarshalJSON e = MarshalJSON (CError None None (userdetails e) (msg e) 0 (code e)) \<and>
   (ValidString (msg e) \<and> (\<forall>x\<in>set (seq (userdetails e)). ValidString x) \<longrightarrow>
      MarshalJSON e =
        Valid (JObject
          ([(''message'', JString (msg e)), (''code'', JInt (uint (code e)))] @
           (if seq (userdetails e) = [] then []
            else [(''details'', JArray (map JString (seq (userdetails e))))]))))"
proof (intro conjI impI)
  show "MarshalJSON e =
     Valid (JObject
       ([(''message'', JString (coerceUTF8 (msg e))), (''code'', JInt (uint (code e)))] @
        (if seq (userdetails e) = [] then []
         else [(''details'', JArray (map (\<lambda>x. JString (coerceUTF8 x)) (seq (userdetails e))))])))"
    by (rule MarshalJSON_eq)
  show "MarshalJSON e = MarshalJSON (CError None None (userdetails e) (msg e) 0 (code e))"
    by (simp add: MarshalJSON_eq)
next
  assume v: "ValidString (msg e) \<and> (\<forall>x\<in>set (seq (userdetails e)). ValidString x)"
  then have "map (\<lambda>x. JString (coerceUTF8 x)) (seq (userdetails e)) = map JString (seq (userdetails e))"
    by (simp add: valid_coerce)
  then show "MarshalJSON e =
        Valid (JObject
          ([(''message'', JString (msg e)), (''code'', JInt (uint (code e)))] @
           (if seq (userdetails e) = [] then []
            else [(''details'', JArray (map JString (seq (userdetails e))))])))"
    using v by (simp add: MarshalJSON_eq valid_coerce)
qed

theorem MarshalJSON_members_witness:
  "ValidString ''user not found'' \<and> ValidString ''User not found'' \<and>
   MarshalJSON (CError (Some (Foreign ''sql: no rows'' NoUnwrap)) (Some [''user_id: 123''])
                  (Some [''User not found'']) ''user not found'' 7 404) =
     Valid (JObject [(''message'', JString ''user not found''), (''code'', JInt 404),
                     (''details'', JArray [JString ''User not found''])])"
proof -
  have h: "ValidString ''user not found'' \<and> ValidString ''User not found''"
    by simp
  show ?thesis
    using h MarshalJSON_members [of "CError (Some (Foreign ''sql: no rows'' NoUnwrap)) (Some [''user_id: 123''])
                  (Some [''User not found'']) ''user not found'' 7 404"]
    by simp
qed

text \<open>
  The claim as it is written, with \<^verbatim>\<open>message\<close> equal to the message for every value, fails
  on a message that is not valid UTF-8: for the one byte \<^verbatim>\<open>FF\<close> the member is U+FFFD.
\<close>

theorem MarshalJSON_message_counterexample:
  "MarshalJSON (CError None None None [CHR 0xFF] 7 404) =
     Valid (JObject [(''message'', JString [CHR 0xEF, CHR 0xBF, CHR 0xBD]), (''code'', JInt 404)]) \<and>
   MarshalJSON (CError None None None [CHR 0xFF] 7 404) \<noteq>
     Valid (JObject [(''message'', JString [CHR 0xFF]), (''code'', JInt 404)])"
  by (simp add: MarshalJSON_eq replacement_def)

subsection \<open>Round trip\<close>

text \<open>
  C3, as the code has it. For a value whose message and user details are valid UTF-8,
  \<^verbatim>\<open>UnmarshalJSON\<close> on the output of \<^verbatim>\<open>MarshalJSON\<close> returns no error and leaves a
  receiver with the message, the code and the user-detail sequence of the value, in
  order; the other fields of the receiver stay as they were.
\<close>

theorem roundtrip_valid_utf8:
  assumes "ValidString (msg v)" and "\<forall>x\<in>set (seq (userdetails v)). ValidString x"
  shows "case UnmarshalJSON e (MarshalJSON v) of
           Inl err \<Rightarrow> False
         | Inr r \<Rightarrow> msg r = msg v \<and> code r = code v \<and> seq (userdetails r) = seq (userdetails v) \<and>
                    wrapped r = wrapped e \<and> details r = details e \<and> id' r = id' e"
  using assms by (simp add: roundtrip_coerced valid_coerce map_valid)

theorem roundtrip_valid_utf8_witness:
  "ValidString ''user not found'' \<and> ValidString ''User not found'' \<and> ValidString ''Try again'' \<and>
   (case UnmarshalJSON (CError None None None [] 0 0)
           (MarshalJSON (CError (Some (Foreign ''sql: no rows'' NoUnwrap)) (Some [''user_id: 123''])
                          (Some [''User not found'', ''Try again'']) ''user not found'' 7 404)) of
      Inl err \<Rightarrow> False
    | Inr r \<Rightarrow> msg r = ''user not found'' \<and> code r = 404 \<and>
               seq (userdetails r) = [''User not found'', ''Try again''] \<and> id' r = 0)"
proof -
  let ?v = "CError (Some (Foreign ''sql: no rows'' NoUnwrap)) (Some [''user_id: 123''])
              (Some [''User not found'', ''Try again'']) ''user not found'' 7 404"
  have h1: "ValidString (msg ?v)" by simp
  have h2: "\<forall>x\<in>set (seq (userdetails ?v)). ValidString x" by simp
  show ?thesis
    using h1 h2 roundtrip_valid_utf8 [OF h1 h2, of "CError None None None [] 0 0"]
    by (simp split: sum.splits)
qed

text \<open>
  The claim as it is written, for every value, fails on a message that is not valid
  UTF-8: the byte \<^verbatim>\<open>FF\<close> comes back as the three bytes of U+FFFD.
\<close>

theorem roundtrip_counterexample:
  "UnmarshalJSON (CError None None None [] 0 0) (MarshalJSON (CError None None None [CHR 0xFF] 7 404)) =
     Inr (CError None None None [CHR 0xEF, CHR 0xBF, CHR 0xBD] 0 404) \<and>
   [CHR 0xEF, CHR 0xBF, CHR 0xBD] \<noteq> [CHR 0xFF]"
  by (simp add: roundtrip_coerced replacement_def)

subsection \<open>Derivation and storage\<close>

text \<open>
  C4, as the code has it. In a store where the two slices of the receiver \<open>a\<close> are
  allocated:
  \<^item> no derivation writes to the receiver or to an array that was allocated before the
    call: every slice allocated before \<^verbatim>\<open>WithDetail\<close> or \<^verbatim>\<open>WithUserDetail\<close> shows the
    same elements after it (\<^verbatim>\<open>WithCode\<close>, \<^verbatim>\<open>WithMessage\<close> and \<^verbatim>\<open>WithWrap\<close> do not
    touch the store at all);
  \<^item> the sequence that \<^verbatim>\<open>WithDetail\<close> or \<^verbatim>\<open>WithUserDetail\<close> appends to is a new array
    that shares storage with no slice allocated before, and it shows the receiver's
    elements followed by the new one;
  \<^item> every other slice field of the result is the receiver's slice header itself (the
    struct is copied, not the arrays), so it shows the receiver's array;
  \<^item> after \<open>tA = a.WithDetail(x)\<close> and \<open>tB = a.WithDetail(y)\<close>, \<open>tA\<close> shows the elements
    of \<open>a\<close> and \<open>x\<close>, \<open>tB\<close> shows the elements of \<open>a\<close> and \<open>y\<close>, and \<open>a\<close> shows what it
    showed.
\<close>

theorem derivation_storage:
  assumes "allocated st (details a)" and "allocated st (userdetails a)"
  shows
   "(\<forall>s. allocated st s \<longrightarrow>
        elems (snd (WithDetail a x st)) s = elems st s \<and>
        elems (snd (WithUserDetail a x st)) s = elems st s \<and>
        \<not> shares_storage (details (fst (WithDetail a x st))) s \<and>
        \<not> shares_storage (userdetails (fst (WithUserDetail a x st))) s) \<and>
    elems (snd (WithDetail a x st)) (details (fst (WithDetail a x st))) = elems st (details a) @ [x] \<and>
    elems (snd (WithUserDetail a x st)) (userdetails (fst (WithUserDetail a x st))) =
      elems st (userdetails a) @ [x] \<and>
    userdetails (fst (WithDetail a x st)) = userdetails a \<and>
    details (fst (WithUserDetail a x st)) = details a \<and>
    details (WithCode a c) = details a \<and> userdetails (WithCode a c) = userdetails a \<and>
    details (WithMessage a m) = details a \<and> userdetails (WithMessage a m) = userdetails a \<and>
    details (WithWrap a w) = details a \<and> userdetails (WithWrap a w) = userdetails a \<and>
    elems (snd (WithDetail a y (snd (WithDetail a x st)))) (details (fst (WithDetail a x st))) =
      elems st (details a) @ [x] \<and>
    elems (snd (WithDetail a y (snd (WithDetail a x st))))
          (details (fst (WithDetail a y (snd (WithDetail a x st))))) =
      elems st (details a) @ [y] \<and>
    elems (snd (WithDetail a y (snd (WithDetail a x st)))) (details a) = elems st (details a)"
proof -
  let ?A = "WithDetail a x st"
  let ?B = "WithDetail a y (snd ?A)"
  note D = WithDetail_store [OF assms(1), of x]
  note U = WithUserDetail_store [OF assms(2), of x]
  have frame: "\<forall>s. allocated st s \<longrightarrow>
        elems (snd (WithDetail a x st)) s = elems st s \<and>
        elems (snd (WithUserDetail a x st)) s = elems st s \<and>
        \<not> shares_storage (details (fst (WithDetail a x st))) s \<and>
        \<not> shares_storage (userdetails (fst (WithUserDetail a x st))) s"
  proof (intro allI impI conjI)
    fix s assume s: "allocated st s"
    show "elems (snd (WithDetail a x st)) s = elems st s"
      using s D(1) by (rule elems_frame)
    show "elems (snd (WithUserDetail a x st)) s = elems st s"
      using s U(1) by (rule elems_frame)
    show "\<not> shares_storage (details (fst (WithDetail a x st))) s"
      unfolding D(3) using s by (rule not_shares_fresh)
    show "\<not> shares_storage (userdetails (fst (WithUserDetail a x st))) s"
      unfolding U(3) using s by (rule not_shares_fresh)
  qed
  have plain: "details (WithCode a c) = details a \<and> userdetails (WithCode a c) = userdetails a \<and>
    details (WithMessage a m) = details a \<and> userdetails (WithMessage a m) = userdetails a \<and>
    details (WithWrap a w) = details a \<and> userdetails (WithWrap a w) = userdetails a"
    by (simp add: WithCode_def WithMessage_def WithWrap_def)
  have a1: "allocated (snd ?A) (details a)"
    using assms(1) D(1) D(2) by (rule allocated_frame)
  have e1: "elems (snd ?A) (details a) = elems st (details a)"
    using assms(1) D(1) by (rule elems_frame)
  note D2 = WithDetail_store [OF a1, of y]
  have "elems (snd ?B) (details (fst ?A)) = elems (snd ?A) (details (fst ?A))"
    using D(5) D2(1) by (rule elems_frame)
  then have indep1: "elems (snd ?B) (details (fst ?A)) = elems st (details a) @ [x]"
    by (simp only: D(4))
  have indep2: "elems (snd ?B) (details (fst ?B)) = elems st (details a) @ [y]"
    by (simp only: D2(4) e1)
  have "elems (snd ?B) (details a) = elems (snd ?A) (details a)"
    using a1 D2(1) by (rule elems_frame)
  then have indep3: "elems (snd ?B) (details a) = elems st (details a)"
    by (simp only: e1)
  show ?thesis
    by (intro conjI frame D(4) U(4) D(6) U(6) plain [THEN conjunct1] indep1 indep2 indep3)
       (simp_all add: WithCode_def WithMessage_def WithWrap_def)
qed

theorem derivation_storage_witness:
  "allocated \<lparr>arrays = [0 \<mapsto> [''d0'']], next_free = 1\<rparr> (Some (Slice 0 1 1)) \<and>
   allocated \<lparr>arrays = [0 \<mapsto> [''d0'']], next_free = 1\<rparr> None \<and>
   elems (snd (WithDetail (CError None (Some (Slice 0 1 1)) None ''m'' 5 400) ''y''
                 (snd (WithDetail (CError None (Some (Slice 0 1 1)) None ''m'' 5 400) ''x''
                         \<lparr>arrays = [0 \<mapsto> [''d0'']], next_free = 1\<rparr>))))
         (details (fst (WithDetail (CError None (Some (Slice 0 1 1)) None ''m'' 5 400) ''x''
                          \<lparr>arrays = [0 \<mapsto> [''d0'']], next_free = 1\<rparr>))) = [''d0'', ''x''] \<and>
   elems (snd (WithDetail (CError None (Some (Slice 0 1 1)) None ''m'' 5 400) ''y''
                 (snd (WithDetail (CError None (Some (Slice 0 1 1)) None ''m'' 5 400) ''x''
                         \<lparr>arrays = [0 \<mapsto> [''d0'']], next_free = 1\<rparr>))))
         (Some (Slice 0 1 1)) = [''d0'']"
proof -
  let ?st = "\<lparr>arrays = [0 \<mapsto> [''d0'']], next_free = 1\<rparr>"
  let ?a = "CError None (Some (Slice 0 1 1)) None ''m'' 5 400 :: slice CError"
  have h1: "allocated ?st (details ?a)" by (simp add: allocated_def array_at_def)
  have h2: "allocated ?st (userdetails ?a)" by (simp add: allocated_def)
  have e: "elems ?st (details ?a) = [''d0'']" by (simp add: elems_def array_at_def)
  show ?thesis
    using h1 h2 e derivation_storage [OF h1 h2, of "''x''" 0 "[]" None "''y''"]
    by simp
qed

text \<open>
  The claim as it is written, with no backing storage shared between the result of any
  derivation and the receiver's detail sequences, fails: after one \<^verbatim>\<open>WithDetail\<close> the
  receiver has a backing array, and the result of \<^verbatim>\<open>WithCode\<close> shows that same array.
\<close>

theorem derivation_shares_storage_counterexample:
  "shares_storage
     (details (WithCode (fst (WithDetail (CError None None None ''m'' 5 400) ''d0'' empty_store)) 404))
     (details (fst (WithDetail (CError None None None ''m'' 5 400) ''d0'' empty_store)))"
  by (simp add: WithCode_def WithDetail_def make_slice_def copy_slice_def append_slice_def
      len_of_slice_def shares_storage_def empty_store_def Let_def)

subsection \<open>Chain traversal\<close>

text \<open>
  C5. \<^verbatim>\<open>UnwrapAll\<close> returns the links of the cause chain in order, from the direct cause
  on: the chain of no link is empty, and the chain from a link on is that link followed
  by the chain from its next link (the cause of a \<^verbatim>\<open>CError\<close>, what \<^verbatim>\<open>Unwrap\<close> returns
  for a foreign error that has it, none otherwise). Without a cause the result is empty.
  For \<open>c3\<close> wrapping \<open>c2\<close>, \<open>c2\<close> wrapping \<open>c1\<close>, and \<open>c1\<close> a plain foreign error, it is
  \<open>[c2, c1]\<close>. Every chain of the model is finite, so the function always returns.
\<close>

theorem UnwrapAll_chain:
  "UnwrapAll c = chain (wrapped c) \<and>
   chain None = ([] :: 's error list) \<and>
   chain (Some l) = l # chain (next_link l) \<and>
   UnwrapAll (fst (New k m n :: 's CError \<times> 32 word)) = [] \<and>
   UnwrapAll (fst (Wrap (Some (PtrCError (fst (Wrap (Some (Foreign t NoUnwrap)) k2 m2 n2)))) k3 m3 n3)) =
     [PtrCError (fst (Wrap (Some (Foreign t NoUnwrap)) k2 m2 n2)), Foreign t NoUnwrap]"
proof (intro conjI)
  show "UnwrapAll c = chain (wrapped c)"
    by (simp add: UnwrapAll_def UnwrapAll_loop_chain)
  show "chain None = ([] :: 's error list)" by simp
  show "chain (Some l) = l # chain (next_link l)" by (rule chain_next)
  show "UnwrapAll (fst (New k m n :: 's CError \<times> 32 word)) = []"
    by (simp add: UnwrapAll_def New_def Let_def)
  show "UnwrapAll (fst (Wrap (Some (PtrCError (fst (Wrap (Some (Foreign t NoUnwrap)) k2 m2 n2)))) k3 m3 n3)) =
     [PtrCError (fst (Wrap (Some (Foreign t NoUnwrap)) k2 m2 n2)), Foreign t NoUnwrap]"
    by (simp add: UnwrapAll_def Wrap_def Let_def)
qed

subsection \<open>Fresh identities\<close>

text \<open>
  C6, as the code has it. Every construction call takes its identity from the counter,
  which is an \<^verbatim>\<open>int32\<close> and wraps around: the \<open>i\<close>-th and the \<open>j\<close>-th call of a run
  return equal identities exactly when \<open>j - i\<close> is a multiple of \<open>2^32\<close>. So the
  identities of a run of at most \<open>2^32\<close> construction calls are pairwise different.
\<close>

theorem identity_collision_iff:
  "(\<forall>i j. i < j \<and> j < length ks \<longrightarrow>
      (id' (constructions ks n ! i) = id' (constructions ks n ! j)) = (2 ^ 32 dvd (j - i))) \<and>
   (length ks \<le> 2 ^ 32 \<longrightarrow> distinct (map id' (constructions ks n)))"
proof -
  have iff: "(id' (constructions ks n ! i) = id' (constructions ks n ! j)) = (2 ^ 32 dvd (j - i))"
    if "i < j" "j < length ks" for i j
  proof -
    have "i < length ks" using that by simp
    then show ?thesis
      using that constructions_id [of i ks n] constructions_id [of j ks n] word32_of_nat_eq [of i j]
      by simp
  qed
  have "distinct (map id' (constructions ks n))" if le: "length ks \<le> 2 ^ 32"
  proof -
    have ne: "id' (constructions ks n ! i) \<noteq> id' (constructions ks n ! j)"
      if "i < j" "j < length ks" for i j
    proof -
      have "0 < j - i" "j - i < 2 ^ 32" using that le by simp_all
      then have "\<not> (2 :: nat) ^ 32 dvd (j - i)"
        by (meson dvd_imp_le not_le)
      then show ?thesis using iff [OF that] by simp
    qed
    have "map id' (constructions ks n) ! i \<noteq> map id' (constructions ks n) ! j"
      if "i < length ks" "j < length ks" "i \<noteq> j" for i j
    proof (cases "i < j")
      case True
      then show ?thesis using ne [of i j] that by (simp add: constructions_length)
    next
      case False
      then have "j < i" using that by simp
      then show ?thesis using ne [of j i] that by (simp add: constructions_length)
    qed
    then show ?thesis
      by (simp add: distinct_conv_nth constructions_length)
  qed
  then show ?thesis using iff by blast
qed

theorem identity_collision_iff_witness:
  "length [CallNew 400 ''a'', CallWrap None 500 ''b'', CallNew 404 ''c'' :: slice construction] \<le> 2 ^ 32 \<and>
   distinct (map id' (constructions
      [CallNew 400 ''a'', CallWrap None 500 ''b'', CallNew 404 ''c'' :: slice construction] 70)) \<and>
   map id' (constructions
      [CallNew 400 ''a'', CallWrap None 500 ''b'', CallNew 404 ''c'' :: slice construction] 70) = [71, 72, 73]"
proof -
  have h: "length [CallNew 400 ''a'', CallWrap None 500 ''b'', CallNew 404 ''c'' :: slice construction] \<le> 2 ^ 32"
    by simp
  have v: "map id' (constructions
      [CallNew 400 ''a'', CallWrap None 500 ''b'', CallNew 404 ''c'' :: slice construction] 70) = [71, 72, 73]"
    by (simp add: New_def Wrap_def Let_def)
  show ?thesis
    using h v identity_collision_iff [of "[CallNew 400 ''a'', CallWrap None 500 ''b'', CallNew 404 ''c'']" 70]
    by blast
qed

text \<open>
  The claim as it is written, with no two construction calls ever returning equal
  identities, fails in a run of \<open>2^32 + 1\<close> calls: the first and the last return the same.
\<close>

theorem identity_wraps_counterexample:
  "\<not> distinct (map id' (constructions (replicate (2 ^ 32 + 1) (CallNew 404 ''x'' :: slice construction)) 0))"
proof -
  let ?ks = "replicate (2 ^ 32 + 1) (CallNew 404 ''x'' :: slice construction)"
  let ?xs = "map id' (constructions ?ks 0)"
  have "?xs ! 0 = ?xs ! (2 ^ 32)"
    using constructions_id [of 0 ?ks 0] constructions_id [of "2 ^ 32" ?ks 0]
    by (simp add: constructions_length)
  moreover have "(0::nat) < length ?xs" "(2 ^ 32 :: nat) < length ?xs" "(0::nat) \<noteq> 2 ^ 32"
    by (simp_all add: constructions_length)
  ultimately have "\<exists>i<length ?xs. \<exists>j<length ?xs. i \<noteq> j \<and> ?xs ! i = ?xs ! j"
    by blast
  then show ?thesis
    unfolding distinct_conv_nth by blast
qed

subsection \<open>Deserialization\<close>

text \<open>
  C7. On a record of the three-field shape (\<^verbatim>\<open>message\<close> a string, \<^verbatim>\<open>code\<close> an integer
  of the \<^verbatim>\<open>uint16\<close> range, \<^verbatim>\<open>details\<close> absent or an array of strings, in any order)
  \<^verbatim>\<open>UnmarshalJSON\<close> returns no error and sets the message, the code and the user
  details of the receiver from the three members; it leaves the identity, the technical
  details and the cause of the receiver as they were, which for the zero value that a
  record is deserialized into is identity 0, no technical details and no cause.
\<close>

theorem UnmarshalJSON_populates:
  assumes "three_field_record kvs m n ud"
  shows "UnmarshalJSON e (Valid (JObject kvs)) =
           Inr (CError (wrapped e) (details e) ud m (id' e) (word_of_int n)) \<and>
         UnmarshalJSON (CError None None None [] 0 0) (Valid (JObject kvs)) =
           Inr (CError None None ud m 0 (word_of_int n))"
proof -
  let ?z = "\<lparr>Message = [], Code = 0, Details = None\<rparr>"
  have d: "distinct (map fst kvs)"
    and mm: "map_of kvs ''message'' = Some (JString m)"
    and mc: "map_of kvs ''code'' = Some (JInt n)"
    and md: "map_of kvs ''details'' = map_option (\<lambda>ds. JArray (map JString ds)) ud"
    using assms unfolding three_field_record_def by blast+
  have deep: "\<not> 10000 < nesting (JObject kvs)"
    using nesting_record [OF record_typed [OF assms]] by simp
  from decode_object_typed [OF d record_typed [OF assms], of ?z "[]"]
  obtain r b where r: "decode_object kvs (?z, []) = Inr (r, b)"
    and m: "\<forall>x. map_of kvs ''message'' = Some (JString x) \<longrightarrow> Message r = x"
    and c: "\<forall>n. map_of kvs ''code'' = Some (JInt n) \<longrightarrow> Code r = word_of_int n"
    and ds: "\<forall>ds. map_of kvs ''details'' = Some (JArray (map JString ds)) \<longrightarrow> Details r = Some ds"
    and dn: "map_of kvs ''details'' = None \<longrightarrow> Details r = Details ?z"
    by (elim exE conjE)
  have "Message r = m" "Code r = word_of_int n"
    using mm mc m c by simp_all
  moreover have "Details r = ud"
    using md ds dn by (cases ud) simp_all
  ultimately show ?thesis
    using r deep by (simp add: UnmarshalJSON_def)
qed

theorem UnmarshalJSON_populates_witness:
  "three_field_record
     [(''code'', JInt 404), (''details'', JArray [JString ''User not found'']),
      (''message'', JString ''user not found'')]
     ''user not found'' 404 (Some [''User not found'']) \<and>
   UnmarshalJSON (CError None None None [] 0 0)
     (Valid (JObject [(''code'', JInt 404), (''details'', JArray [JString ''User not found'']),
                      (''message'', JString ''user not found'')])) =
   Inr (CError None None (Some [''User not found'']) ''user not found'' 0 404)"
proof -
  have h: "three_field_record
     [(''code'', JInt 404), (''details'', JArray [JString ''User not found'']),
      (''message'', JString ''user not found'')]
     ''user not found'' 404 (Some [''User not found''])"
    by (simp add: three_field_record_def)
  show ?thesis
    using h UnmarshalJSON_populates [OF h, of "CError None None None [] 0 0"]
    by simp
qed

text \<open>
  C8, as the code has it. \<^verbatim>\<open>UnmarshalJSON\<close> returns a decode error exactly when the
  input is not valid JSON, or is nested more than 10000 deep, or is a value other than
  \<^verbatim>\<open>null\<close> and an object, or is an object with a member whose key matches one of the
  three tags (exactly, or up to case) and whose value is neither \<^verbatim>\<open>null\<close> nor of the
  field's type: a string for \<^verbatim>\<open>message\<close>, a plain numeral from 0 to 65535 for
  \<^verbatim>\<open>code\<close>, an array of strings and \<^verbatim>\<open>null\<close>s for \<^verbatim>\<open>details\<close>. Which field a key
  selects is stated by \<open>selects\<close>, apart from the decoder's \<open>field_of\<close>, and the two
  agree. It returns no error when \<^verbatim>\<open>details\<close> is missing. On a receiver that is not
  nil, matching fails exactly on a nil pointer as target, a nil \<^verbatim>\<open>*CError\<close> for
  \<^verbatim>\<open>Is\<close> and a nil \<^verbatim>\<open>**CError\<close> for \<^verbatim>\<open>As\<close>; on every other target it returns, and
  answers false on a mismatch of types: \<^verbatim>\<open>Is\<close> on a foreign error or on nil,
  \<^verbatim>\<open>As\<close> on a target that is no \<^verbatim>\<open>**CError\<close>. A derivation fails exactly on a nil
  receiver. The constructors have no receiver and no operation that can fail.
\<close>

theorem UnmarshalJSON_error_iff:
  "isl (UnmarshalJSON e data) = (\<not> accepted data) \<and>
   field_of key = selects key \<and>
   UnmarshalJSON e (Valid (JObject [(''message'', JString m), (''code'', JInt (uint c))])) =
     Inr (CError (wrapped e) (details e) None m (id' e) c) \<and>
   isl (Is_target e target) = (target = NilCError) \<and>
   Is_target e (Target (Some (Foreign t u))) = Inr False \<and>
   Is_target e (Target None) = Inr False \<and>
   isl (As_target e argument) = (argument = NilHolder) \<and>
   As_target e (AsTarget OtherTarget) = Inr (False, OtherTarget) \<and>
   isl (through p (\<lambda>a. WithCode a c0)) = (p = None) \<and>
   isl (through p (\<lambda>a. WithMessage a m0)) = (p = None) \<and>
   isl (through p (\<lambda>a. WithWrap a w0)) = (p = None) \<and>
   isl (through q (\<lambda>a. WithDetail a d0 st)) = (q = None) \<and>
   isl (through q (\<lambda>a. WithUserDetail a d0 st)) = (q = None)"
proof (intro conjI)
  show "isl (UnmarshalJSON e data) = (\<not> accepted data)"
    using json_Unmarshal_isl [of data "(\<lparr>Message = [], Code = 0, Details = None\<rparr>, [])"]
    by (auto simp: UnmarshalJSON_def split: sum.splits)
  show "field_of key = selects key"
    by (rule field_of_selects)
  show "UnmarshalJSON e (Valid (JObject [(''message'', JString m), (''code'', JInt (uint c))])) =
     Inr (CError (wrapped e) (details e) None m (id' e) c)"
    using uint_lt2p [of c] by (simp add: UnmarshalJSON_def field_of_tags maximum_def)
  show "isl (Is_target e target) = (target = NilCError)"
    by (cases target) (simp_all add: Is_target_def)
  show "Is_target e (Target (Some (Foreign t u))) = Inr False"
    by (simp add: Is_target_def Is_def)
  show "Is_target e (Target None) = Inr False"
    by (simp add: Is_target_def Is_def)
  show "isl (As_target e argument) = (argument = NilHolder)"
    by (cases argument) (simp_all add: As_target_def)
  show "As_target e (AsTarget OtherTarget) = Inr (False, OtherTarget)"
    by (simp add: As_target_def As_def)
  show "isl (through p (\<lambda>a. WithCode a c0)) = (p = None)"
    by (cases p) (simp_all add: through_def)
  show "isl (through p (\<lambda>a. WithMessage a m0)) = (p = None)"
    by (cases p) (simp_all add: through_def)
  show "isl (through p (\<lambda>a. WithWrap a w0)) = (p = None)"
    by (cases p) (simp_all add: through_def)
  show "isl (through q (\<lambda>a. WithDetail a d0 st)) = (q = None)"
    by (cases q) (simp_all add: through_def)
  show "isl (through q (\<lambda>a. WithUserDetail a d0 st)) = (q = None)"
    by (cases q) (simp_all add: through_def)
qed

text \<open>
  The claim as it is written fails in both parts. An object whose \<^verbatim>\<open>message\<close> is
  \<^verbatim>\<open>null\<close>, and the input \<^verbatim>\<open>null\<close> itself, are not of the three-field shape, and
  both decode without an error. And matching does fail: \<^verbatim>\<open>Is\<close> on a target that
  holds a nil \<^verbatim>\<open>*CError\<close> panics.
\<close>

theorem UnmarshalJSON_null_counterexample:
  "\<not> has_shape (Valid (JObject [(''message'', JNull), (''code'', JInt 404)])) \<and>
   UnmarshalJSON (CError None None None [] 0 0) (Valid (JObject [(''message'', JNull), (''code'', JInt 404)])) =
     Inr (CError None None None [] 0 404) \<and>
   \<not> has_shape (Valid JNull) \<and>
   UnmarshalJSON (CError None None None [] 0 0) (Valid JNull) = Inr (CError None None None [] 0 0) \<and>
   Is_target (CError None None None [] 0 0 :: string list CError) NilCError = Inl NilDereference"
  by (simp add: has_shape_def UnmarshalJSON_def field_of_tags maximum_def Is_target_def)

subsection \<open>Full diagnostics\<close>

text \<open>
  C9. \<^verbatim>\<open>FullData\<close> of \<open>e\<close> is the map with the message under \<^verbatim>\<open>message\<close>, the code
  under \<^verbatim>\<open>code\<close>, the technical details under \<^verbatim>\<open>details\<close> only if there are any, the
  user details under \<^verbatim>\<open>user_details\<close> only if there are any, and, when \<open>e\<close> has a
  cause, under \<^verbatim>\<open>wrapped\<close> the records of all links of the cause chain in order, each as
  \<open>link_record\<close> describes it; it has no other key.
\<close>

theorem FullData_record:
  "FullData e =
     (\<lambda>k. if k = ''message'' then Some (AString (msg e))
          else if k = ''code'' then Some (AUint16 (code e))
          else if k = ''details'' \<and> seq (details e) \<noteq> [] then Some (AStrings (seq (details e)))
          else if k = ''user_details'' \<and> seq (userdetails e) \<noteq> []
            then Some (AStrings (seq (userdetails e)))
          else if k = ''wrapped'' \<and> wrapped e \<noteq> None
            then Some (AMaps (map link_record (chain (wrapped e))))
          else None)"
  using chain_nonempty [of "wrapped e"]
  by (intro ext) (simp add: FullData_def expandAllWrapped_def expand_loop_chain Let_def)

subsection \<open>Code comparison\<close>

text \<open>
  C10. \<^verbatim>\<open>IsCode\<close> is true exactly when its argument lies between 0 and 65535 and is
  the stored code; outside that range it is false, and the argument is never truncated.
\<close>

theorem IsCode_iff:
  "IsCode e c = (0 \<le> sint c \<and> sint c \<le> 65535 \<and> uint (code e) = sint c)"
proof -
  have A: "(\<not> (c <s 0 \<or> 65535 <s c)) = (0 \<le> sint c \<and> sint c \<le> 65535)"
    by (auto simp: word_sless_alt)
  show ?thesis
    unfolding IsCode_def using A uint_ucast_in_range [of c]
    by (metis word_eq_iff_unsigned)
qed

end
